theory Spec2Isabelle
  imports Complex_Main "HOL-Library.AList" "HOL-Library.Product_Lexorder"
begin

section \<open>Data model of \<^verbatim>\<open>main.py\<close>\<close>

text \<open>
  The planner of \<^verbatim>\<open>src/main.py\<close> (class \<^verbatim>\<open>SantaRouteOptimizer\<close>) is embedded as follows.
  \<^item> Python floats (weights, volumes, distances, times) are exact rationals; the two
    non-finite floats that the arithmetic of \<^verbatim>\<open>calculate_loading\<close> can produce (a division by
    a zero footprint gives \<^verbatim>\<open>inf\<close> or \<^verbatim>\<open>nan\<close> on numpy scalars) are modelled by the exception
    that the following \<^verbatim>\<open>int(...)\<close> raises on them.
  \<^item> Identifiers and counts are Python ints, hence \<open>int\<close>.
  \<^item> A \<^verbatim>\<open>dict\<close> is an association list in insertion order with unique keys.
  \<^item> The \<^verbatim>\<open>set\<close> \<^verbatim>\<open>unvisited\<close> is the list of its elements in the order in which the
    interpreter enumerates them; removing an element keeps the order of the others.  The
    enumeration of the initial set is an argument of the model.
  \<^item> \<^verbatim>\<open>print\<close> of a warning is an entry of a log carried in the state.
  \<^item> \<^verbatim>\<open>geodesic\<close> of geopy is an argument \<open>geodesic\<close> of the model.
\<close>

datatype py_error = IndexError | KeyError | ZeroDivisionError | OverflowError | ValueError

type_synonym coord = "rat \<times> rat"

type_synonym py_dict = "(int \<times> int) list"

record child_row =
  child :: int
  latitude :: rat
  longitude :: rat
  wish :: int
  naughty :: int

record gift_row =
  article :: int
  weight :: rat
  volume :: rat

text \<open>A row of \<^verbatim>\<open>children_df\<close> after \<^verbatim>\<open>assign_gifts\<close>: the child's columns, the column
  \<^verbatim>\<open>assigned_article\<close>, and the columns of the catalog row joined to it; \<open>None\<close> stands for
  the NaN columns that the left join leaves when no catalog row matches.\<close>

record assigned_row = child_row +
  assigned_article :: int
  gift :: "gift_row option"

record optimizer =
  children_df :: "child_row list"
  gifts_df :: "gift_row list"
  max_weight :: rat
  max_volume :: rat
  speed_kmh :: rat
  time_per_stop_min :: rat
  max_time_hours :: rat

datatype stop = Delivery int | Refuel py_dict

record planner_state =
  route :: "stop list"
  unvisited :: "int list"
  current_position :: coord
  current_cargo :: py_dict
  total_time :: rat
  warnings :: "int list"

record plan =
  plan_route :: "stop list"
  plan_total_time :: rat
  plan_warnings :: "int list"
  plan_advisory :: "rat option"

definition NORTH_POLE :: coord where
  "NORTH_POLE = (90, 0)"

definition COAL_ARTICLE_ID :: int where
  "COAL_ARTICLE_ID = 0"

section \<open>Initialisation\<close>

text \<open>\<^verbatim>\<open>_load_sleigh_specs\<close> fills a dict from the rows of the file, a later row overwriting
  an earlier one with the same key; \<^verbatim>\<open>__init__\<close> reads four keys of it (a missing key raises
  \<^verbatim>\<open>KeyError\<close>) and sets \<^verbatim>\<open>max_time_hours\<close> to the literal 7.\<close>

definition load_sleigh_specs :: "(string \<times> rat) list \<Rightarrow> (string \<rightharpoonup> rat)" where
  "load_sleigh_specs rows = map_of (rev rows)"

definition spec_get :: "(string \<rightharpoonup> rat) \<Rightarrow> string \<Rightarrow> py_error + rat" where
  "spec_get specs k = (case specs k of None \<Rightarrow> Inl KeyError | Some v \<Rightarrow> Inr v)"

definition init :: "child_row list \<Rightarrow> gift_row list \<Rightarrow> (string \<times> rat) list \<Rightarrow> py_error + optimizer" where
  "init children gifts sleigh_rows =
     (let sleigh_specs = load_sleigh_specs sleigh_rows in
      (case spec_get sleigh_specs ''maximum weight'' of Inl e \<Rightarrow> Inl e | Inr mw \<Rightarrow>
      (case spec_get sleigh_specs ''maximum volume'' of Inl e \<Rightarrow> Inl e | Inr mv \<Rightarrow>
      (case spec_get sleigh_specs ''speed (km/h)'' of Inl e \<Rightarrow> Inl e | Inr sp \<Rightarrow>
      (case spec_get sleigh_specs ''time per stop (min)'' of Inl e \<Rightarrow> Inl e | Inr ts \<Rightarrow>
        Inr \<lparr>children_df = children, gifts_df = gifts, max_weight = mw, max_volume = mv,
             speed_kmh = sp, time_per_stop_min = ts, max_time_hours = 7\<rparr>)))))"

section \<open>Assignment of gifts\<close>

definition mk_assigned :: "child_row \<Rightarrow> int \<Rightarrow> gift_row option \<Rightarrow> assigned_row" where
  "mk_assigned c a g =
     \<lparr>child = child c, latitude = latitude c, longitude = longitude c, wish = wish c,
      naughty = naughty c, assigned_article = a, gift = g\<rparr>"

text \<open>The left join on \<^verbatim>\<open>assigned_article = article\<close>: one row per matching catalog row, in
  catalog order, or one row with empty catalog columns.\<close>

definition merge_row :: "gift_row list \<Rightarrow> child_row \<Rightarrow> assigned_row list" where
  "merge_row gifts c =
     (let a = (if naughty c = 0 then wish c else COAL_ARTICLE_ID) in
      case filter (\<lambda>g. article g = a) gifts of
        [] \<Rightarrow> [mk_assigned c a None]
      | g # gs \<Rightarrow> map (\<lambda>g'. mk_assigned c a (Some g')) (g # gs))"

definition assign_gifts :: "optimizer \<Rightarrow> assigned_row list" where
  "assign_gifts opt = concat (map (merge_row (gifts_df opt)) (children_df opt))"

text \<open>\<^verbatim>\<open>df[df['child'] == child_id].iloc[0]\<close> and \<^verbatim>\<open>df[df['article'] == article_id].iloc[0]\<close>:
  the first matching row, \<^verbatim>\<open>IndexError\<close> when there is none.\<close>

definition find_child :: "assigned_row list \<Rightarrow> int \<Rightarrow> py_error + assigned_row" where
  "find_child rows child_id =
     (case find (\<lambda>r. child r = child_id) rows of None \<Rightarrow> Inl IndexError | Some r \<Rightarrow> Inr r)"

definition find_gift :: "gift_row list \<Rightarrow> int \<Rightarrow> py_error + gift_row" where
  "find_gift gifts article_id =
     (case find (\<lambda>g. article g = article_id) gifts of None \<Rightarrow> Inl IndexError | Some g \<Rightarrow> Inr g)"

section \<open>Loading at the depot\<close>

text \<open>\<^verbatim>\<open>int(a / b)\<close> on floats: truncation towards zero.  For \<open>b = 0\<close> the quotient is
  \<^verbatim>\<open>nan\<close> (when \<open>a = 0\<close>) or infinite, and \<^verbatim>\<open>int\<close> raises \<^verbatim>\<open>ValueError\<close> or
  \<^verbatim>\<open>OverflowError\<close>.\<close>

definition py_int :: "rat \<Rightarrow> int" where
  "py_int x = (if 0 \<le> x then \<lfloor>x\<rfloor> else \<lceil>x\<rceil>)"

definition int_of_quotient :: "rat \<Rightarrow> rat \<Rightarrow> py_error + int" where
  "int_of_quotient a b =
     (if b = 0 then (if a = 0 then Inl ValueError else Inl OverflowError)
      else Inr (py_int (a / b)))"

definition dict_get :: "py_dict \<Rightarrow> int \<Rightarrow> int \<Rightarrow> int" where
  "dict_get d k dflt = (case map_of d k of None \<Rightarrow> dflt | Some v \<Rightarrow> v)"

fun tally :: "assigned_row list \<Rightarrow> int list \<Rightarrow> py_dict \<Rightarrow> py_error + py_dict" where
  "tally rows [] needed_articles = Inr needed_articles"
| "tally rows (child_id # rest) needed_articles =
     (case find_child rows child_id of
        Inl e \<Rightarrow> Inl e
      | Inr ch \<Rightarrow>
          tally rows rest
            (AList.update (assigned_article ch)
               (dict_get needed_articles (assigned_article ch) 0 + 1) needed_articles))"

fun load_items :: "optimizer \<Rightarrow> py_dict \<Rightarrow> py_dict \<Rightarrow> rat \<Rightarrow> rat \<Rightarrow> py_error + py_dict" where
  "load_items opt [] loaded_articles current_weight current_volume = Inr loaded_articles"
| "load_items opt ((article_id, needed_count) # rest) loaded_articles current_weight current_volume =
     (case find_gift (gifts_df opt) article_id of
        Inl e \<Rightarrow> Inl e
      | Inr g \<Rightarrow>
         (case int_of_quotient (max_weight opt - current_weight) (weight g) of
            Inl e \<Rightarrow> Inl e
          | Inr max_by_weight \<Rightarrow>
             (case int_of_quotient (max_volume opt - current_volume) (volume g) of
                Inl e \<Rightarrow> Inl e
              | Inr max_by_volume \<Rightarrow>
                 (let max_can_load = min (min max_by_weight max_by_volume) needed_count in
                  if max_can_load > 0 then
                    load_items opt rest (AList.update article_id max_can_load loaded_articles)
                      (current_weight + of_int max_can_load * weight g)
                      (current_volume + of_int max_can_load * volume g)
                  else load_items opt rest loaded_articles current_weight current_volume))))"

definition calculate_loading :: "optimizer \<Rightarrow> assigned_row list \<Rightarrow> int list \<Rightarrow> py_error + py_dict" where
  "calculate_loading opt rows unvisited_children =
     (case tally rows unvisited_children [] of
        Inl e \<Rightarrow> Inl e
      | Inr needed_articles \<Rightarrow> load_items opt (sort needed_articles) [] 0 0)"

section \<open>The planning loop\<close>

text \<open>The scan of lines 100 to 114.  \<open>best_distance = None\<close> is the initial \<^verbatim>\<open>float('inf')\<close>,
  which every distance is below.\<close>

definition can_deliver :: "py_dict \<Rightarrow> int \<Rightarrow> bool" where
  "can_deliver cargo article_id = (case map_of cargo article_id of None \<Rightarrow> False | Some n \<Rightarrow> n > 0)"

definition below :: "rat \<Rightarrow> rat option \<Rightarrow> bool" where
  "below d best = (case best of None \<Rightarrow> True | Some b \<Rightarrow> d < b)"

fun scan :: "(coord \<Rightarrow> coord \<Rightarrow> rat) \<Rightarrow> assigned_row list \<Rightarrow> coord \<Rightarrow> py_dict \<Rightarrow> int list \<Rightarrow>
    int option \<Rightarrow> rat option \<Rightarrow> py_error + (int option \<times> rat option)" where
  "scan geodesic rows pos cargo [] best_child best_distance = Inr (best_child, best_distance)"
| "scan geodesic rows pos cargo (child_id # rest) best_child best_distance =
     (case find_child rows child_id of
        Inl e \<Rightarrow> Inl e
      | Inr ch \<Rightarrow>
         (let distance_to_child = geodesic pos (latitude ch, longitude ch) in
          if can_deliver cargo (assigned_article ch) \<and> below distance_to_child best_distance
          then scan geodesic rows pos cargo rest (Some child_id) (Some distance_to_child)
          else scan geodesic rows pos cargo rest best_child best_distance))"

text \<open>Lines 117 to 124: the recipients whose gift exceeds the full capacity.  A comparison
  with NaN is false.\<close>

definition too_big :: "optimizer \<Rightarrow> assigned_row \<Rightarrow> bool" where
  "too_big opt ch =
     (case gift ch of None \<Rightarrow> False
      | Some g \<Rightarrow> weight g > max_weight opt \<or> volume g > max_volume opt)"

fun classify :: "optimizer \<Rightarrow> assigned_row list \<Rightarrow> int list \<Rightarrow> py_error + int list" where
  "classify opt rows [] = Inr []"
| "classify opt rows (child_id # rest) =
     (case find_child rows child_id of
        Inl e \<Rightarrow> Inl e
      | Inr ch \<Rightarrow>
         (case classify opt rows rest of
            Inl e \<Rightarrow> Inl e
          | Inr undeliverable \<Rightarrow>
              Inr (if too_big opt ch then child_id # undeliverable else undeliverable)))"

text \<open>\<^verbatim>\<open>set.remove\<close> raises \<^verbatim>\<open>KeyError\<close> on a missing element.\<close>

definition set_remove :: "int \<Rightarrow> int list \<Rightarrow> py_error + int list" where
  "set_remove x xs = (if x \<in> set xs then Inr (remove1 x xs) else Inl KeyError)"

fun remove_each :: "int list \<Rightarrow> int list \<Rightarrow> py_error + int list" where
  "remove_each [] xs = Inr xs"
| "remove_each (child_id # rest) xs =
     (case set_remove child_id xs of Inl e \<Rightarrow> Inl e | Inr xs' \<Rightarrow> remove_each rest xs')"

text \<open>\<^verbatim>\<open>x / speed_kmh\<close> on Python floats raises \<^verbatim>\<open>ZeroDivisionError\<close> for a zero speed.\<close>

definition float_div :: "rat \<Rightarrow> rat \<Rightarrow> py_error + rat" where
  "float_div a b = (if b = 0 then Inl ZeroDivisionError else Inr (a / b))"

text \<open>Lines 116 to 139: nothing on board can be delivered.\<close>

definition reload :: "(coord \<Rightarrow> coord \<Rightarrow> rat) \<Rightarrow> optimizer \<Rightarrow> assigned_row list \<Rightarrow> planner_state \<Rightarrow>
    py_error + planner_state" where
  "reload geodesic opt rows s =
     (case classify opt rows (unvisited s) of
        Inl e \<Rightarrow> Inl e
      | Inr undeliverable \<Rightarrow>
         (case remove_each undeliverable (unvisited s) of
            Inl e \<Rightarrow> Inl e
          | Inr unvisited' \<Rightarrow>
             (let s1 = s\<lparr>unvisited := unvisited', warnings := warnings s @ undeliverable\<rparr> in
              if unvisited' = [] then Inr s1
              else
                (case float_div (geodesic (current_position s) NORTH_POLE) (speed_kmh opt) of
                   Inl e \<Rightarrow> Inl e
                 | Inr t \<Rightarrow>
                    (case calculate_loading opt rows unvisited' of
                       Inl e \<Rightarrow> Inl e
                     | Inr articles_to_load \<Rightarrow>
                         Inr (s1\<lparr>total_time := total_time s + t,
                                 route := route s @ [Refuel articles_to_load],
                                 current_position := NORTH_POLE,
                                 current_cargo := articles_to_load\<rparr>))))))"

text \<open>Lines 141 to 156: the delivery to \<open>best_child\<close>.\<close>

definition cargo_take :: "py_dict \<Rightarrow> int \<Rightarrow> py_error + py_dict" where
  "cargo_take cargo article_id =
     (case map_of cargo article_id of
        None \<Rightarrow> Inl KeyError
      | Some n \<Rightarrow>
          Inr (if n - 1 = 0 then AList.delete article_id cargo
               else AList.update article_id (n - 1) cargo))"

definition deliver :: "(coord \<Rightarrow> coord \<Rightarrow> rat) \<Rightarrow> optimizer \<Rightarrow> assigned_row list \<Rightarrow> planner_state \<Rightarrow>
    int \<Rightarrow> py_error + planner_state" where
  "deliver geodesic opt rows s best_child =
     (case find_child rows best_child of
        Inl e \<Rightarrow> Inl e
      | Inr ch \<Rightarrow>
         (case set_remove best_child (unvisited s) of
            Inl e \<Rightarrow> Inl e
          | Inr unvisited' \<Rightarrow>
             (case cargo_take (current_cargo s) (assigned_article ch) of
                Inl e \<Rightarrow> Inl e
              | Inr cargo' \<Rightarrow>
                 (case float_div (geodesic (current_position s) (latitude ch, longitude ch)) (speed_kmh opt) of
                    Inl e \<Rightarrow> Inl e
                  | Inr t \<Rightarrow>
                      Inr (s\<lparr>route := route s @ [Delivery best_child],
                             unvisited := unvisited',
                             current_cargo := cargo',
                             current_position := (latitude ch, longitude ch),
                             total_time := total_time s + t + time_per_stop_min opt / 60\<rparr>)))))"

text \<open>One iteration of the \<^verbatim>\<open>while\<close> loop.  The \<^verbatim>\<open>break\<close> of line 130 leaves the loop with an
  empty \<^verbatim>\<open>unvisited\<close>; here \<open>reload\<close> returns that state and the loop test ends the loop.\<close>

definition loop_body :: "(coord \<Rightarrow> coord \<Rightarrow> rat) \<Rightarrow> optimizer \<Rightarrow> assigned_row list \<Rightarrow> planner_state \<Rightarrow>
    py_error + planner_state" where
  "loop_body geodesic opt rows s =
     (case scan geodesic rows (current_position s) (current_cargo s) (unvisited s) None None of
        Inl e \<Rightarrow> Inl e
      | Inr (None, _) \<Rightarrow> reload geodesic opt rows s
      | Inr (Some best_child, _) \<Rightarrow> deliver geodesic opt rows s best_child)"

partial_function (option) while_unvisited ::
  "(coord \<Rightarrow> coord \<Rightarrow> rat) \<Rightarrow> optimizer \<Rightarrow> assigned_row list \<Rightarrow> planner_state \<Rightarrow>
     (py_error + planner_state) option" where
  "while_unvisited geodesic opt rows s =
     (if unvisited s = [] then Some (Inr s)
      else (case loop_body geodesic opt rows s of
              Inl e \<Rightarrow> Some (Inl e)
            | Inr s' \<Rightarrow> while_unvisited geodesic opt rows s'))"

declare while_unvisited.simps [code]

text \<open>Lines 158 to 169: the closing return to the depot and the budget check.  The advisory
  is the speed that the second \<^verbatim>\<open>print\<close> formats.\<close>

definition finish :: "(coord \<Rightarrow> coord \<Rightarrow> rat) \<Rightarrow> optimizer \<Rightarrow> planner_state \<Rightarrow> py_error + plan" where
  "finish geodesic opt s =
     (case float_div (geodesic (current_position s) NORTH_POLE) (speed_kmh opt) of
        Inl e \<Rightarrow> Inl e
      | Inr t \<Rightarrow>
         (let total = total_time s + t in
          Inr \<lparr>plan_route = route s @ [Refuel []],
               plan_total_time = total,
               plan_warnings = warnings s,
               plan_advisory =
                 (if total > max_time_hours opt
                  then Some (total / max_time_hours opt * speed_kmh opt) else None)\<rparr>))"

definition initial_state :: "int list \<Rightarrow> planner_state" where
  "initial_state us =
     \<lparr>route = [], unvisited = us, current_position = NORTH_POLE, current_cargo = [],
      total_time = 0, warnings = []\<rparr>"

text \<open>\<^verbatim>\<open>optimize_route\<close>; \<open>us\<close> enumerates the set built in line 94.  \<open>None\<close> is a loop that
  does not end.\<close>

definition optimize_route :: "(coord \<Rightarrow> coord \<Rightarrow> rat) \<Rightarrow> optimizer \<Rightarrow> int list \<Rightarrow> (py_error + plan) option" where
  "optimize_route geodesic opt us =
     (case while_unvisited geodesic opt (assign_gifts opt) (initial_state us) of
        None \<Rightarrow> None
      | Some (Inl e) \<Rightarrow> Some (Inl e)
      | Some (Inr s) \<Rightarrow> Some (finish geodesic opt s))"

section \<open>Notions used in the statements\<close>

definition deliverable :: "assigned_row list \<Rightarrow> py_dict \<Rightarrow> int \<Rightarrow> bool" where
  "deliverable rows cargo c =
     (case find_child rows c of Inl _ \<Rightarrow> False | Inr ch \<Rightarrow> can_deliver cargo (assigned_article ch))"

definition distance_to :: "(coord \<Rightarrow> coord \<Rightarrow> rat) \<Rightarrow> assigned_row list \<Rightarrow> coord \<Rightarrow> int \<Rightarrow> rat" where
  "distance_to geodesic rows pos c =
     (case find_child rows c of Inl _ \<Rightarrow> 0 | Inr ch \<Rightarrow> geodesic pos (latitude ch, longitude ch))"

definition oversized :: "optimizer \<Rightarrow> assigned_row list \<Rightarrow> int \<Rightarrow> bool" where
  "oversized opt rows c = (case find_child rows c of Inl _ \<Rightarrow> False | Inr ch \<Rightarrow> too_big opt ch)"

definition known :: "assigned_row list \<Rightarrow> int \<Rightarrow> bool" where
  "known rows c = (case find_child rows c of Inl _ \<Rightarrow> False | Inr _ \<Rightarrow> True)"

text \<open>\<open>first_nearest us c\<close>: \<open>c\<close> is deliverable, strictly nearer than every deliverable
  recipient enumerated before it and at least as near as every one enumerated after it.\<close>

definition first_nearest :: "(coord \<Rightarrow> coord \<Rightarrow> rat) \<Rightarrow> assigned_row list \<Rightarrow> coord \<Rightarrow> py_dict \<Rightarrow> int list \<Rightarrow> int \<Rightarrow> bool" where
  "first_nearest geodesic rows pos cargo us c =
     (\<exists>pre post. us = pre @ c # post \<and> deliverable rows cargo c \<and>
        (\<forall>x \<in> set pre. deliverable rows cargo x \<longrightarrow>
            distance_to geodesic rows pos c < distance_to geodesic rows pos x) \<and>
        (\<forall>x \<in> set post. deliverable rows cargo x \<longrightarrow>
            distance_to geodesic rows pos c \<le> distance_to geodesic rows pos x))"

definition scan_acc :: "(coord \<Rightarrow> coord \<Rightarrow> rat) \<Rightarrow> assigned_row list \<Rightarrow> coord \<Rightarrow> py_dict \<Rightarrow> int list \<Rightarrow>
    int option \<Rightarrow> rat option \<Rightarrow> bool" where
  "scan_acc geodesic rows pos cargo seen bc bd =
     (case bc of
        None \<Rightarrow> bd = None \<and> (\<forall>x \<in> set seen. \<not> deliverable rows cargo x)
      | Some c \<Rightarrow> bd = Some (distance_to geodesic rows pos c) \<and>
                  first_nearest geodesic rows pos cargo seen c)"

fun deliveries :: "stop list \<Rightarrow> int list" where
  "deliveries [] = []"
| "deliveries (Delivery c # evs) = c # deliveries evs"
| "deliveries (Refuel m # evs) = deliveries evs"


text \<open>The state after at most \<open>n\<close> iterations of the loop.\<close>

fun run_iterations :: "(coord \<Rightarrow> coord \<Rightarrow> rat) \<Rightarrow> optimizer \<Rightarrow> assigned_row list \<Rightarrow> nat \<Rightarrow>
    planner_state \<Rightarrow> py_error + planner_state" where
  "run_iterations geodesic opt rows 0 s = Inr s"
| "run_iterations geodesic opt rows (Suc n) s =
     (if unvisited s = [] then Inr s
      else (case loop_body geodesic opt rows s of
              Inl e \<Rightarrow> Inl e
            | Inr s' \<Rightarrow> run_iterations geodesic opt rows n s'))"

definition unit_weight :: "gift_row list \<Rightarrow> int \<Rightarrow> rat" where
  "unit_weight gifts a = (case find_gift gifts a of Inl _ \<Rightarrow> 0 | Inr g \<Rightarrow> weight g)"

definition unit_volume :: "gift_row list \<Rightarrow> int \<Rightarrow> rat" where
  "unit_volume gifts a = (case find_gift gifts a of Inl _ \<Rightarrow> 0 | Inr g \<Rightarrow> volume g)"






definition assigned_to :: "assigned_row list \<Rightarrow> int \<Rightarrow> int \<Rightarrow> bool" where
  "assigned_to rows a c = (case find_child rows c of Inl _ \<Rightarrow> False | Inr ch \<Rightarrow> assigned_article ch = a)"

definition demand :: "assigned_row list \<Rightarrow> int list \<Rightarrow> int \<Rightarrow> int" where
  "demand rows us a = int (length (filter (assigned_to rows a) us))"

text \<open>A small instance on which the statements below are evaluated: three recipients, the
  second wishing a gift heavier than the sleigh carries and the third naughty, a sleigh that
  carries five units of weight, and the taxicab distance in place of the geodesic one.\<close>

definition taxicab :: "coord \<Rightarrow> coord \<Rightarrow> rat" where
  "taxicab p q = \<bar>fst p - fst q\<bar> + \<bar>snd p - snd q\<bar>"

definition ex_children :: "child_row list" where
  "ex_children =
     [\<lparr>child = 1, latitude = 50, longitude = 10, wish = 5, naughty = 0\<rparr>,
      \<lparr>child = 2, latitude = 40, longitude = 0, wish = 6, naughty = 0\<rparr>,
      \<lparr>child = 3, latitude = 60, longitude = 0, wish = 5, naughty = 1\<rparr>]"

definition ex_gifts :: "gift_row list" where
  "ex_gifts =
     [\<lparr>article = 0, weight = 1, volume = 1\<rparr>, \<lparr>article = 5, weight = 4, volume = 2\<rparr>,
      \<lparr>article = 6, weight = 100, volume = 2\<rparr>]"

definition ex_opt :: optimizer where
  "ex_opt = \<lparr>children_df = ex_children, gifts_df = ex_gifts, max_weight = 5, max_volume = 10,
             speed_kmh = 10, time_per_stop_min = 30, max_time_hours = 7\<rparr>"

definition ex_loaded :: planner_state where
  "ex_loaded =
     \<lparr>route = [Refuel [(0, 1), (5, 1)]], unvisited = [1, 3], current_position = NORTH_POLE,
      current_cargo = [(0, 1), (5, 1)], total_time = 0, warnings = [2]\<rparr>"

definition ex_delivered :: planner_state where
  "ex_delivered =
     \<lparr>route = [Refuel [(0, 1), (5, 1)], Delivery 3], unvisited = [1], current_position = (60, 0),
      current_cargo = [(5, 1)], total_time = 7 / 2, warnings = [2]\<rparr>"

text \<open>The bookkeeping of the loop over the enumeration \<open>us\<close> of the initial set: the
  unvisited, the served and the dropped recipients partition it, a dropped recipient is
  oversized, a served one is not, and no oversized recipient is unvisited once the first
  iteration is over.\<close>

definition bookkeeping :: "optimizer \<Rightarrow> assigned_row list \<Rightarrow> int list \<Rightarrow> planner_state \<Rightarrow> bool" where
  "bookkeeping opt rows us s =
     (distinct (unvisited s @ deliveries (route s) @ warnings s) \<and>
      set (unvisited s @ deliveries (route s) @ warnings s) = set us \<and>
      list_all (oversized opt rows) (warnings s) \<and>
      list_all (\<lambda>c. \<not> oversized opt rows c) (deliveries (route s)) \<and>
      ((current_cargo s = [] \<and> route s = [] \<and> warnings s = []) \<or>
       list_all (\<lambda>c. \<not> oversized opt rows c) (unvisited s)))"


definition ex_done :: planner_state where
  "ex_done =
     \<lparr>route = [Refuel [(0, 1), (5, 1)], Delivery 3, Delivery 1], unvisited = [],
      current_position = (50, 10), current_cargo = [], total_time = 6, warnings = [2]\<rparr>"

definition ex_plan :: plan where
  "ex_plan =
     \<lparr>plan_route = [Refuel [(0, 1), (5, 1)], Delivery 3, Delivery 1, Refuel []],
      plan_total_time = 11, plan_warnings = [2], plan_advisory = Some (110 / 7)\<rparr>"

text \<open>The rows of a sleigh file that also states a trip time budget of ten hours.\<close>

definition ex_sleigh_rows :: "(string \<times> rat) list" where
  "ex_sleigh_rows =
     [(''maximum weight'', 5), (''maximum volume'', 10), (''speed (km/h)'', 10),
      (''time per stop (min)'', 30), (''maximum time (h)'', 10)]"

text \<open>One naughty recipient and a catalog whose coal has no weight and no volume.\<close>

definition ex_coal_opt :: optimizer where
  "ex_coal_opt =
     \<lparr>children_df = [\<lparr>child = 1, latitude = 50, longitude = 10, wish = 5, naughty = 1\<rparr>],
      gifts_df = [\<lparr>article = 0, weight = 0, volume = 0\<rparr>, \<lparr>article = 5, weight = 4, volume = 2\<rparr>],
      max_weight = 5, max_volume = 10, speed_kmh = 10, time_per_stop_min = 30,
      max_time_hours = 7\<rparr>"

text \<open>The recipient is a row of the table, the catalog resolves its assigned article, and
  the weight and the volume of one unit are positive.\<close>

definition footprint_positive :: "optimizer \<Rightarrow> int \<Rightarrow> bool" where
  "footprint_positive opt c =
     (case find_child (assign_gifts opt) c of
        Inl _ \<Rightarrow> False
      | Inr ch \<Rightarrow>
          (case find_gift (gifts_df opt) (assigned_article ch) of
             Inl _ \<Rightarrow> False
           | Inr g \<Rightarrow> 0 < weight g \<and> 0 < volume g))"

definition resolved_positive :: "optimizer \<Rightarrow> assigned_row list \<Rightarrow> int \<Rightarrow> bool" where
  "resolved_positive opt rows c =
     (case find_child rows c of
        Inl _ \<Rightarrow> False
      | Inr ch \<Rightarrow>
          (case find_gift (gifts_df opt) (assigned_article ch) of
             Inl _ \<Rightarrow> False
           | Inr g \<Rightarrow> gift ch = Some g \<and> 0 < weight g \<and> 0 < volume g))"

definition positive_counts :: "py_dict \<Rightarrow> bool" where
  "positive_counts m = list_all (\<lambda>(a, n). 0 < n) m"

text \<open>Every reload event loads at least one unit and is followed by a delivery event.\<close>

fun reloads_followed :: "stop list \<Rightarrow> bool" where
  "reloads_followed [] = True"
| "reloads_followed (Delivery c # evs) = reloads_followed evs"
| "reloads_followed (Refuel m # evs) =
     (m \<noteq> [] \<and> positive_counts m \<and>
      (case evs of Delivery c # _ \<Rightarrow> reloads_followed evs | _ \<Rightarrow> False))"

definition pending :: "assigned_row list \<Rightarrow> planner_state \<Rightarrow> bool" where
  "pending rows s = list_ex (deliverable rows (current_cargo s)) (unvisited s)"

definition no_idle_reload :: "optimizer \<Rightarrow> assigned_row list \<Rightarrow> planner_state \<Rightarrow> bool" where
  "no_idle_reload opt rows s =
     (case rev (route s) of
        Refuel m # _ \<Rightarrow> unvisited s \<noteq> [] \<and> list_all (\<lambda>c. \<not> oversized opt rows c) (unvisited s)
      | _ \<Rightarrow> True)"

definition reloads_served :: "assigned_row list \<Rightarrow> planner_state \<Rightarrow> bool" where
  "reloads_served rows s =
     (case rev (route s) of
        Refuel m # pre \<Rightarrow> reloads_followed (rev pre) \<and> m \<noteq> [] \<and> positive_counts m \<and> pending rows s
      | _ \<Rightarrow> reloads_followed (route s))"

text \<open>The loader as section 4.2 of the specification words it: the demand per assigned
  item over the unserved recipients, the items in ascending order of their identifier, for
  each the minimum of the two floors and the demand, the remaining capacities decremented,
  an item of which no unit fits left out.\<close>

definition spec_demand :: "assigned_row list \<Rightarrow> int list \<Rightarrow> (int \<times> int) list" where
  "spec_demand rows us =
     map (\<lambda>a. (a, demand rows us a))
       (sort (remdups (List.map_filter
          (\<lambda>c. case find_child rows c of Inl _ \<Rightarrow> None | Inr ch \<Rightarrow> Some (assigned_article ch)) us)))"

fun spec_fill :: "gift_row list \<Rightarrow> (int \<times> int) list \<Rightarrow> rat \<Rightarrow> rat \<Rightarrow> (int \<times> int) list" where
  "spec_fill gifts [] remaining_weight remaining_volume = []"
| "spec_fill gifts ((a, n) # rest) remaining_weight remaining_volume =
     (let k = min (min \<lfloor>remaining_weight / unit_weight gifts a\<rfloor>
                       \<lfloor>remaining_volume / unit_volume gifts a\<rfloor>) n
      in if 0 < k
         then (a, k) # spec_fill gifts rest (remaining_weight - of_int k * unit_weight gifts a)
                          (remaining_volume - of_int k * unit_volume gifts a)
         else spec_fill gifts rest remaining_weight remaining_volume)"

definition spec_loading :: "optimizer \<Rightarrow> assigned_row list \<Rightarrow> int list \<Rightarrow> (int \<times> int) list" where
  "spec_loading opt rows us =
     spec_fill (gifts_df opt) (spec_demand rows us) (max_weight opt) (max_volume opt)"

text \<open>The recipient is a row of the table and the catalog resolves its assigned article with
  a weight and a volume other than zero.\<close>

definition loadable :: "optimizer \<Rightarrow> assigned_row list \<Rightarrow> int \<Rightarrow> bool" where
  "loadable opt rows c =
     (case find_child rows c of
        Inl _ \<Rightarrow> False
      | Inr ch \<Rightarrow>
          (case find_gift (gifts_df opt) (assigned_article ch) of
             Inl _ \<Rightarrow> False
           | Inr g \<Rightarrow> weight g \<noteq> 0 \<and> volume g \<noteq> 0))"

text \<open>The measure of the loop: two for each unvisited recipient, and one more while nothing
  on board can be delivered.\<close>

definition remaining_work :: "assigned_row list \<Rightarrow> planner_state \<Rightarrow> nat" where
  "remaining_work rows s = 2 * length (unvisited s) + (if pending rows s then 0 else 1)"

section \<open>The scan for the nearest deliverable recipient\<close>

lemma first_nearest_snoc_keep:
  assumes "first_nearest geodesic rows pos cargo seen c"
    and "deliverable rows cargo x \<Longrightarrow> distance_to geodesic rows pos c \<le> distance_to geodesic rows pos x"
  shows "first_nearest geodesic rows pos cargo (seen @ [x]) c"
proof -
  from assms(1) obtain pre post where h: "seen = pre @ c # post" "deliverable rows cargo c"
    "\<forall>x \<in> set pre. deliverable rows cargo x \<longrightarrow>
            distance_to geodesic rows pos c < distance_to geodesic rows pos x"
    "\<forall>x \<in> set post. deliverable rows cargo x \<longrightarrow>
            distance_to geodesic rows pos c \<le> distance_to geodesic rows pos x"
    unfolding first_nearest_def by blast
  have "seen @ [x] = pre @ c # (post @ [x])" using h(1) by simp
  moreover have "\<forall>y \<in> set (post @ [x]). deliverable rows cargo y \<longrightarrow>
            distance_to geodesic rows pos c \<le> distance_to geodesic rows pos y"
    using h(4) assms(2) by auto
  ultimately show ?thesis unfolding first_nearest_def using h(2,3) by blast
qed

lemma first_nearest_snoc_new:
  assumes "deliverable rows cargo x"
    and "\<forall>y \<in> set seen. deliverable rows cargo y \<longrightarrow>
            distance_to geodesic rows pos x < distance_to geodesic rows pos y"
  shows "first_nearest geodesic rows pos cargo (seen @ [x]) x"
  unfolding first_nearest_def
  using assms by (intro exI[of _ seen] exI[of _ "[]"]) simp

lemma first_nearest_lower_bound:
  assumes "first_nearest geodesic rows pos cargo seen c" "y \<in> set seen" "deliverable rows cargo y"
  shows "distance_to geodesic rows pos c \<le> distance_to geodesic rows pos y"
proof -
  from assms(1) obtain pre post where h: "seen = pre @ c # post" 
    "\<forall>x \<in> set pre. deliverable rows cargo x \<longrightarrow>
            distance_to geodesic rows pos c < distance_to geodesic rows pos x"
    "\<forall>x \<in> set post. deliverable rows cargo x \<longrightarrow>
            distance_to geodesic rows pos c \<le> distance_to geodesic rows pos x"
    unfolding first_nearest_def by blast
  from assms(2) h(1) have "y \<in> set pre \<or> y = c \<or> y \<in> set post" by auto
  then show ?thesis using h(2,3) assms(3) by fastforce
qed

lemma scan_acc_step:
  assumes "scan_acc geodesic rows pos cargo seen bc bd"
    and "scan geodesic rows pos cargo us bc bd = Inr (bc', bd')"
  shows "scan_acc geodesic rows pos cargo (seen @ us) bc' bd'"
  using assms
proof (induction us arbitrary: seen bc bd)
  case Nil
  then show ?case by simp
next
  case (Cons x us)
  from Cons.prems(2) obtain ch where ch: "find_child rows x = Inr ch"
    by (auto split: sum.splits)
  have dx: "deliverable rows cargo x = can_deliver cargo (assigned_article ch)"
    and tx: "distance_to geodesic rows pos x = geodesic pos (latitude ch, longitude ch)"
    using ch by (simp_all add: deliverable_def distance_to_def)
  show ?case
  proof (cases "can_deliver cargo (assigned_article ch) \<and> below (geodesic pos (latitude ch, longitude ch)) bd")
    case True
    then have rec: "scan geodesic rows pos cargo us (Some x) (Some (distance_to geodesic rows pos x)) = Inr (bc', bd')"
      using Cons.prems(2) ch tx by (simp add: Let_def)
    have lt: "\<forall>y \<in> set seen. deliverable rows cargo y \<longrightarrow>
            distance_to geodesic rows pos x < distance_to geodesic rows pos y"
    proof (cases bc)
      case None
      then show ?thesis using Cons.prems(1) by (simp add: scan_acc_def)
    next
      case (Some c)
      then have b: "bd = Some (distance_to geodesic rows pos c)"
        and fn: "first_nearest geodesic rows pos cargo seen c"
        using Cons.prems(1) by (simp_all add: scan_acc_def)
      from True b tx have "distance_to geodesic rows pos x < distance_to geodesic rows pos c"
        by (simp add: below_def)
      then show ?thesis using first_nearest_lower_bound[OF fn] by fastforce
    qed
    have "scan_acc geodesic rows pos cargo (seen @ [x]) (Some x) (Some (distance_to geodesic rows pos x))"
      using first_nearest_snoc_new[of rows cargo x seen geodesic pos] True dx lt
      by (simp add: scan_acc_def)
    from Cons.IH[OF this rec] show ?thesis by simp
  next
    case False
    then have rec: "scan geodesic rows pos cargo us bc bd = Inr (bc', bd')"
      using Cons.prems(2) ch by (auto simp add: Let_def split: if_splits)
    have "scan_acc geodesic rows pos cargo (seen @ [x]) bc bd"
    proof (cases bc)
      case None
      then show ?thesis using Cons.prems(1) False dx by (auto simp add: scan_acc_def below_def)
    next
      case (Some c)
      then have b: "bd = Some (distance_to geodesic rows pos c)"
        and fn: "first_nearest geodesic rows pos cargo seen c"
        using Cons.prems(1) by (simp_all add: scan_acc_def)
      have "deliverable rows cargo x \<Longrightarrow> distance_to geodesic rows pos c \<le> distance_to geodesic rows pos x"
        using False dx tx b by (simp add: below_def)
      from first_nearest_snoc_keep[OF fn this] show ?thesis using Some b by (simp add: scan_acc_def)
    qed
    from Cons.IH[OF this rec] show ?thesis by simp
  qed
qed

lemma scan_result:
  assumes "scan geodesic rows pos cargo us None None = Inr (bc, bd)"
  shows "scan_acc geodesic rows pos cargo us bc bd"
  using scan_acc_step[of geodesic rows pos cargo "[]" None None us bc bd] assms
  by (simp add: scan_acc_def)

lemma scan_total:
  assumes "\<forall>c \<in> set us. known rows c"
  shows "\<exists>r. scan geodesic rows pos cargo us bc bd = Inr r"
  using assms
  by (induction us arbitrary: bc bd) (auto simp: known_def Let_def split: sum.splits)

section \<open>Effects of one iteration\<close>

lemma deliveries_append: "deliveries (xs @ ys) = deliveries xs @ deliveries ys"
  by (induction xs rule: deliveries.induct) simp_all


lemma classify_result:
  "classify opt rows us = Inr und \<Longrightarrow> und = filter (oversized opt rows) us \<and> (\<forall>c \<in> set us. known rows c)"
  by (induction us arbitrary: und) (auto simp: oversized_def known_def split: sum.splits)

lemma classify_total:
  "\<forall>c \<in> set us. known rows c \<Longrightarrow> classify opt rows us = Inr (filter (oversized opt rows) us)"
  by (induction us) (auto simp: oversized_def known_def split: sum.splits)

lemma remove_each_subset:
  "remove_each xs ys = Inr zs \<Longrightarrow> set zs \<subseteq> set ys \<and> (distinct ys \<longrightarrow> distinct zs)"
proof (induction xs arbitrary: ys)
  case Nil
  then show ?case by simp
next
  case (Cons x xs)
  then have "x \<in> set ys" and "remove_each xs (remove1 x ys) = Inr zs"
    by (auto simp: set_remove_def split: if_splits)
  from Cons.IH[OF this(2)] show ?case
    using set_remove1_subset[of x ys] by auto
qed

lemma remove_each_filter:
  "distinct ys \<Longrightarrow> distinct xs \<Longrightarrow> set xs \<subseteq> set ys \<Longrightarrow>
     remove_each xs ys = Inr (filter (\<lambda>y. y \<notin> set xs) ys)"
proof (induction xs arbitrary: ys)
  case Nil
  then show ?case by simp
next
  case (Cons x xs)
  have r: "remove1 x ys = filter (\<lambda>y. y \<noteq> x) ys"
    using Cons.prems(1) by (simp add: distinct_remove1_removeAll removeAll_filter_not_eq) metis
  have "remove_each xs (remove1 x ys) = Inr (filter (\<lambda>y. y \<notin> set xs) (remove1 x ys))"
    using Cons.prems by (intro Cons.IH) auto
  then show ?case using Cons.prems r by (auto simp: set_remove_def intro: filter_cong)
qed

lemma remove_oversized:
  assumes "distinct us"
  shows "remove_each (filter P us) us = Inr (filter (\<lambda>c. \<not> P c) us)"
proof -
  have "remove_each (filter P us) us = Inr (filter (\<lambda>y. y \<notin> set (filter P us)) us)"
    using assms by (intro remove_each_filter) auto
  moreover have "filter (\<lambda>y. y \<notin> set (filter P us)) us = filter (\<lambda>c. \<not> P c) us"
    by (intro filter_cong) auto
  ultimately show ?thesis by simp
qed

lemma reloadE:
  assumes "reload geodesic opt rows s = Inr t"
  obtains (emptied) und where "classify opt rows (unvisited s) = Inr und"
      "remove_each und (unvisited s) = Inr []"
      "unvisited t = []" "warnings t = warnings s @ und" "route t = route s"
      "current_cargo t = current_cargo s" "current_position t = current_position s"
      "total_time t = total_time s"
  | (loaded) und u dt m where "classify opt rows (unvisited s) = Inr und"
      "remove_each und (unvisited s) = Inr u" "u \<noteq> []"
      "float_div (geodesic (current_position s) NORTH_POLE) (speed_kmh opt) = Inr dt"
      "calculate_loading opt rows u = Inr m"
      "unvisited t = u" "warnings t = warnings s @ und" "route t = route s @ [Refuel m]"
      "current_cargo t = m" "current_position t = NORTH_POLE"
      "total_time t = total_time s + dt"
proof -
  from assms obtain und where c: "classify opt rows (unvisited s) = Inr und"
    unfolding reload_def by (cases "classify opt rows (unvisited s)") simp_all
  from assms c obtain u where r: "remove_each und (unvisited s) = Inr u"
    unfolding reload_def by (cases "remove_each und (unvisited s)") simp_all
  show thesis
  proof (cases "u = []")
    case True
    then have "t = s\<lparr>unvisited := [], warnings := warnings s @ und\<rparr>"
      using assms c r unfolding reload_def by (simp add: Let_def)
    then show thesis using c r True by (intro emptied[of und]) simp_all
  next
    case False
    from assms c r False obtain dt where
      d: "float_div (geodesic (current_position s) NORTH_POLE) (speed_kmh opt) = Inr dt"
      unfolding reload_def
      by (cases "float_div (geodesic (current_position s) NORTH_POLE) (speed_kmh opt)")
        (simp_all add: Let_def)
    from assms c r False d obtain m where m: "calculate_loading opt rows u = Inr m"
      unfolding reload_def by (cases "calculate_loading opt rows u") (simp_all add: Let_def)
    have "t = s\<lparr>unvisited := u, warnings := warnings s @ und, total_time := total_time s + dt,
             route := route s @ [Refuel m], current_position := NORTH_POLE, current_cargo := m\<rparr>"
      using assms c r False d m unfolding reload_def by (simp add: Let_def)
    then show thesis using c r False d m by (intro loaded[of und u dt m]) simp_all
  qed
qed

lemma deliverE:
  assumes "deliver geodesic opt rows s c = Inr t"
  obtains ch u cargo' dt where "find_child rows c = Inr ch"
      "set_remove c (unvisited s) = Inr u"
      "cargo_take (current_cargo s) (assigned_article ch) = Inr cargo'"
      "float_div (geodesic (current_position s) (latitude ch, longitude ch)) (speed_kmh opt) = Inr dt"
      "route t = route s @ [Delivery c]" "unvisited t = u" "current_cargo t = cargo'"
      "current_position t = (latitude ch, longitude ch)"
      "total_time t = total_time s + dt + time_per_stop_min opt / 60"
      "warnings t = warnings s"
proof -
  from assms obtain ch where ch: "find_child rows c = Inr ch"
    unfolding deliver_def by (cases "find_child rows c") simp_all
  from assms ch obtain u where u: "set_remove c (unvisited s) = Inr u"
    unfolding deliver_def by (cases "set_remove c (unvisited s)") simp_all
  from assms ch u obtain cargo' where
    k: "cargo_take (current_cargo s) (assigned_article ch) = Inr cargo'"
    unfolding deliver_def
    by (cases "cargo_take (current_cargo s) (assigned_article ch)") simp_all
  from assms ch u k obtain dt where
    d: "float_div (geodesic (current_position s) (latitude ch, longitude ch)) (speed_kmh opt) = Inr dt"
    unfolding deliver_def
    by (cases "float_div (geodesic (current_position s) (latitude ch, longitude ch)) (speed_kmh opt)")
      simp_all
  have "t = s\<lparr>route := route s @ [Delivery c], unvisited := u, current_cargo := cargo',
             current_position := (latitude ch, longitude ch),
             total_time := total_time s + dt + time_per_stop_min opt / 60\<rparr>"
    using assms ch u k d unfolding deliver_def by simp
  then show thesis using ch u k d by (intro that[of ch u cargo' dt]) simp_all
qed

lemma loop_bodyE:
  assumes "loop_body geodesic opt rows s = Inr t"
  obtains (reload) bd where
      "scan geodesic rows (current_position s) (current_cargo s) (unvisited s) None None = Inr (None, bd)"
      "reload geodesic opt rows s = Inr t"
  | (deliver) c bd where
      "scan geodesic rows (current_position s) (current_cargo s) (unvisited s) None None = Inr (Some c, bd)"
      "deliver geodesic opt rows s c = Inr t"
  using assms unfolding loop_body_def
  by (auto split: sum.splits option.splits)

lemma run_iterations_invariant:
  assumes step: "\<And>s t. P s \<Longrightarrow> unvisited s \<noteq> [] \<Longrightarrow> loop_body geodesic opt rows s = Inr t \<Longrightarrow> P t"
    and "P s" "run_iterations geodesic opt rows n s = Inr t"
  shows "P t"
  using assms(2,3)
proof (induction n arbitrary: s)
  case 0
  then show ?case by simp
next
  case (Suc n)
  show ?case
  proof (cases "unvisited s = []")
    case True
    then show ?thesis using Suc.prems by simp
  next
    case False
    then obtain s' where b: "loop_body geodesic opt rows s = Inr s'"
      and r: "run_iterations geodesic opt rows n s' = Inr t"
      using Suc.prems(2) by (auto split: sum.splits)
    from Suc.IH[OF step[OF Suc.prems(1) False b] r] show ?thesis .
  qed
qed

lemma while_unvisited_iterations:
  assumes "while_unvisited geodesic opt rows s = Some r"
  shows "\<exists>n. run_iterations geodesic opt rows n s = r \<and> (\<forall>t. r = Inr t \<longrightarrow> unvisited t = [])"
proof (rule while_unvisited.raw_induct
    [where P = "\<lambda>geodesic opt rows s r. \<exists>n. run_iterations geodesic opt rows n s = r \<and>
                  (\<forall>t. r = Inr t \<longrightarrow> unvisited t = [])", OF _ assms])
  fix rec geodesic opt rows s r
  assume 1: "\<And>g p w s r. rec g p w s = Some r \<Longrightarrow>
      \<exists>n. run_iterations g p w n s = r \<and> (\<forall>t. r = Inr t \<longrightarrow> unvisited t = [])"
    "(if unvisited s = [] then Some (Inr s)
      else case loop_body geodesic opt rows s of Inl e \<Rightarrow> Some (Inl e)
           | Inr s' \<Rightarrow> rec geodesic opt rows s') = Some r"
  show "\<exists>n. run_iterations geodesic opt rows n s = r \<and> (\<forall>t. r = Inr t \<longrightarrow> unvisited t = [])"
  proof (cases "unvisited s = []")
    case True
    then have "r = Inr s" using 1(2) by simp
    then have "run_iterations geodesic opt rows 0 s = r \<and> (\<forall>t. r = Inr t \<longrightarrow> unvisited t = [])"
      using True by simp
    then show ?thesis by blast
  next
    case False
    show ?thesis
    proof (cases "loop_body geodesic opt rows s")
      case (Inl e)
      then have "r = Inl e" using 1(2) False by simp
      then have "run_iterations geodesic opt rows (Suc 0) s = r \<and> (\<forall>t. r = Inr t \<longrightarrow> unvisited t = [])"
        using False Inl by simp
      then show ?thesis by blast
    next
      case (Inr s')
      then have "rec geodesic opt rows s' = Some r" using 1(2) False by simp
      from 1(1)[OF this] obtain n where
        "run_iterations geodesic opt rows n s' = r \<and> (\<forall>t. r = Inr t \<longrightarrow> unvisited t = [])"
        by blast
      then have "run_iterations geodesic opt rows (Suc n) s = r \<and> (\<forall>t. r = Inr t \<longrightarrow> unvisited t = [])"
        using False Inr by simp
      then show ?thesis by blast
    qed
  qed
qed

lemma iterations_while_unvisited:
  "run_iterations geodesic opt rows n s = Inr t \<Longrightarrow> unvisited t = [] \<Longrightarrow>
     while_unvisited geodesic opt rows s = Some (Inr t)"
proof (induction n arbitrary: s)
  case 0
  then show ?case by (simp add: while_unvisited.simps)
next
  case (Suc n)
  show ?case
  proof (cases "unvisited s = []")
    case True
    then show ?thesis using Suc.prems by (simp add: while_unvisited.simps)
  next
    case False
    then obtain s' where b: "loop_body geodesic opt rows s = Inr s'"
      and r: "run_iterations geodesic opt rows n s' = Inr t"
      using Suc.prems(1) by (auto split: sum.splits)
    from Suc.IH[OF r Suc.prems(2)] show ?thesis
      using False b by (subst while_unvisited.simps) simp
  qed
qed

section \<open>Loading within the capacity\<close>



lemma update_fresh: "k \<notin> fst ` set al \<Longrightarrow> AList.update k v al = al @ [(k, v)]"
  by (induction al) auto




lemma load_items_Cons:
  assumes "find_gift (gifts_df opt) a = Inr g"
    and "int_of_quotient (max_weight opt - cw) (weight g) = Inr qw"
    and "int_of_quotient (max_volume opt - cv) (volume g) = Inr qv"
    and "k = min (min qw qv) n"
  shows "load_items opt ((a, n) # items) loaded cw cv =
     (if 0 < k then load_items opt items (AList.update a k loaded)
                      (cw + of_int k * weight g) (cv + of_int k * volume g)
      else load_items opt items loaded cw cv)"
  using assms by (simp add: Let_def)


lemma load_items_keeps:
  assumes "load_items opt items loaded cw cv = Inr m" "a \<notin> fst ` set items"
  shows "map_of m a = map_of loaded a"
  using assms
proof (induction items arbitrary: loaded cw cv)
  case Nil
  then show ?case by simp
next
  case (Cons it items)
  obtain b n where it: "it = (b, n)" by (cases it)
  have ab: "a \<noteq> b" and anot: "a \<notin> fst ` set items" using Cons.prems(2) it by auto
  from Cons.prems(1) it obtain g qw qv where
    g: "find_gift (gifts_df opt) b = Inr g"
    and qw: "int_of_quotient (max_weight opt - cw) (weight g) = Inr qw"
    and qv: "int_of_quotient (max_volume opt - cv) (volume g) = Inr qv"
    by (auto split: sum.splits)
  define k where "k = min (min qw qv) n"
  note step = load_items_Cons[OF g qw qv k_def, of items loaded]
  show ?case
  proof (cases "0 < k")
    case False
    then have "load_items opt items loaded cw cv = Inr m"
      using Cons.prems(1) unfolding it step by simp
    from Cons.IH[OF this anot] show ?thesis .
  next
    case True
    then have "load_items opt items (AList.update b k loaded)
        (cw + of_int k * weight g) (cv + of_int k * volume g) = Inr m"
      using Cons.prems(1) unfolding it step by simp
    from Cons.IH[OF this anot] show ?thesis using ab by (simp add: update_conv')
  qed
qed

lemma load_items_total:
  assumes "\<forall>(a, n) \<in> set items. \<exists>g. find_gift (gifts_df opt) a = Inr g \<and> weight g \<noteq> 0 \<and> volume g \<noteq> 0"
  shows "\<exists>m. load_items opt items loaded cw cv = Inr m"
  using assms
proof (induction items arbitrary: loaded cw cv)
  case Nil
  then show ?case by simp
next
  case (Cons it items)
  obtain b n where it: "it = (b, n)" by (cases it)
  from Cons.prems it obtain g where g: "find_gift (gifts_df opt) b = Inr g" "weight g \<noteq> 0" "volume g \<noteq> 0"
    by auto
  have rest: "\<forall>(a, n) \<in> set items. \<exists>g. find_gift (gifts_df opt) a = Inr g \<and> weight g \<noteq> 0 \<and> volume g \<noteq> 0"
    using Cons.prems by simp
  have qw: "int_of_quotient (max_weight opt - cw) (weight g) = Inr (py_int ((max_weight opt - cw) / weight g))"
    and qv: "int_of_quotient (max_volume opt - cv) (volume g) = Inr (py_int ((max_volume opt - cv) / volume g))"
    using g by (simp_all add: int_of_quotient_def)
  show ?case
    unfolding it load_items_Cons[OF g(1) qw qv refl]
    using Cons.IH[OF rest] by simp
qed

lemma load_items_first:
  assumes m: "load_items opt ((a, n) # items) [] 0 0 = Inr m"
    and g: "find_gift (gifts_df opt) a = Inr g"
    and w: "0 < weight g" "weight g \<le> max_weight opt"
    and v: "0 < volume g" "volume g \<le> max_volume opt"
    and n: "0 < n" and fresh: "a \<notin> fst ` set items"
  shows "\<exists>k. 0 < k \<and> map_of m a = Some k"
proof -
  let ?qw = "py_int (max_weight opt / weight g)" and ?qv = "py_int (max_volume opt / volume g)"
  have "1 \<le> max_weight opt / weight g" using w by (simp add: pos_le_divide_eq)
  then have qw: "0 < ?qw" by (simp add: py_int_def)
  have "1 \<le> max_volume opt / volume g" using v by (simp add: pos_le_divide_eq)
  then have qv: "0 < ?qv" by (simp add: py_int_def)
  let ?k = "min (min ?qw ?qv) n"
  have k: "0 < ?k" using qw qv n by simp
  have qw': "int_of_quotient (max_weight opt - 0) (weight g) = Inr ?qw"
    and qv': "int_of_quotient (max_volume opt - 0) (volume g) = Inr ?qv"
    using w v by (simp_all add: int_of_quotient_def)
  have "load_items opt items (AList.update a ?k []) (0 + of_int ?k * weight g) (0 + of_int ?k * volume g) = Inr m"
    using m k unfolding load_items_Cons[OF g qw' qv' refl] by (simp only: if_True)
  from load_items_keeps[OF this fresh] have "map_of m a = Some ?k" by simp
  with k show ?thesis by blast
qed

section \<open>The tally of the demand\<close>

lemma demand_Cons:
  "demand rows (c # us) a = (if assigned_to rows a c then 1 else 0) + demand rows us a"
  by (simp add: demand_def)

lemma demand_pos_iff: "0 < demand rows us a \<longleftrightarrow> (\<exists>c \<in> set us. assigned_to rows a c)"
  by (auto simp: demand_def filter_empty_conv)

lemma tally_result:
  assumes "tally rows us needed = Inr m" "distinct (map fst needed)"
  shows "distinct (map fst m) \<and>
         (\<forall>a. dict_get m a 0 = dict_get needed a 0 + demand rows us a) \<and>
         fst ` set m = fst ` set needed \<union> {a. \<exists>c \<in> set us. assigned_to rows a c} \<and>
         (\<forall>c \<in> set us. known rows c)"
  using assms
proof (induction us arbitrary: needed)
  case Nil
  then show ?case by (simp add: demand_def)
next
  case (Cons c us)
  from Cons.prems(1) obtain ch where ch: "find_child rows c = Inr ch"
    by (auto split: sum.splits)
  let ?a = "assigned_article ch"
  let ?needed = "AList.update ?a (dict_get needed ?a 0 + 1) needed"
  have rec: "tally rows us ?needed = Inr m" using Cons.prems(1) ch by simp
  have d: "distinct (map fst ?needed)" using Cons.prems(2) by (simp add: distinct_update)
  note ih = Cons.IH[OF rec d]
  have at: "\<And>a. assigned_to rows a c \<longleftrightarrow> a = ?a" using ch by (auto simp: assigned_to_def)
  have get: "\<And>a. dict_get ?needed a 0 = dict_get needed a 0 + (if a = ?a then 1 else 0)"
    by (simp add: dict_get_def update_conv')
  have "\<forall>a. dict_get m a 0 = dict_get needed a 0 + demand rows (c # us) a"
    using ih get by (simp add: demand_Cons at)
  moreover have "fst ` set m = fst ` set needed \<union> {a. \<exists>c' \<in> set (c # us). assigned_to rows a c'}"
    using ih by (auto simp: dom_update at)
  moreover have "\<forall>c' \<in> set (c # us). known rows c'" using ih ch by (simp add: known_def)
  ultimately show ?case using ih by blast
qed

lemma tally_total:
  "\<forall>c \<in> set us. known rows c \<Longrightarrow> \<exists>m. tally rows us needed = Inr m"
  by (induction us arbitrary: needed) (auto simp: known_def split: sum.splits)

lemma tally_entries:
  assumes "tally rows us [] = Inr m"
  shows "distinct (map fst m)"
    and "(a, n) \<in> set m \<Longrightarrow> n = demand rows us a \<and> 0 < n"
    and "(\<exists>c \<in> set us. assigned_to rows a c) \<Longrightarrow> (a, demand rows us a) \<in> set m"
    and "\<forall>c \<in> set us. known rows c"
proof -
  note r = tally_result[OF assms, simplified]
  show d: "distinct (map fst m)" using r by simp
  show "\<forall>c \<in> set us. known rows c" using r by simp
  have keys: "fst ` set m = {a. \<exists>c \<in> set us. assigned_to rows a c}" using r by simp
  have get: "\<And>a. dict_get m a 0 = demand rows us a" using r by (simp add: dict_get_def)
  {
    assume an: "(a, n) \<in> set m"
    then have "map_of m a = Some n" using d by simp
    then have "n = demand rows us a" using get[of a] by (simp add: dict_get_def)
    moreover have "a \<in> fst ` set m" using an by (force simp: image_iff)
    then have "0 < demand rows us a" using keys by (simp add: demand_pos_iff)
    ultimately show "n = demand rows us a \<and> 0 < n" by simp
  }
  {
    assume "\<exists>c \<in> set us. assigned_to rows a c"
    then have "a \<in> fst ` set m" using keys by simp
    then obtain n where an: "(a, n) \<in> set m" by auto
    then have "map_of m a = Some n" using d by simp
    then have "n = demand rows us a" using get[of a] by (simp add: dict_get_def)
    with an show "(a, demand rows us a) \<in> set m" by simp
  }
qed

lemma distinct_keys_sort:
  fixes m :: py_dict
  assumes "distinct (map fst m)"
  shows "distinct (map fst (sort m))"
proof -
  from assms have "distinct m" "inj_on fst (set m)" by (simp_all add: distinct_map)
  then show ?thesis by (simp add: distinct_map)
qed

lemma calculate_loadingE:
  assumes "calculate_loading opt rows us = Inr m"
  obtains needed where "tally rows us [] = Inr needed"
    "load_items opt (sort needed) [] 0 0 = Inr m"
  using assms unfolding calculate_loading_def by (auto split: sum.splits)


lemma load_items_keys:
  assumes "load_items opt items loaded cw cv = Inr m"
  shows "fst ` set m \<subseteq> fst ` set loaded \<union> fst ` set items"
  using assms
proof (induction items arbitrary: loaded cw cv)
  case Nil
  then show ?case by auto
next
  case (Cons it items)
  obtain b n where it: "it = (b, n)" by (cases it)
  from Cons.prems(1) it obtain g qw qv where
    g: "find_gift (gifts_df opt) b = Inr g"
    and qw: "int_of_quotient (max_weight opt - cw) (weight g) = Inr qw"
    and qv: "int_of_quotient (max_volume opt - cv) (volume g) = Inr qv"
    by (auto split: sum.splits)
  define k where "k = min (min qw qv) n"
  note step = load_items_Cons[OF g qw qv k_def, of items loaded]
  show ?case
  proof (cases "0 < k")
    case False
    then have "load_items opt items loaded cw cv = Inr m"
      using Cons.prems(1) unfolding it step by simp
    from Cons.IH[OF this] show ?thesis by auto
  next
    case True
    then have "load_items opt items (AList.update b k loaded)
        (cw + of_int k * weight g) (cv + of_int k * volume g) = Inr m"
      using Cons.prems(1) unfolding it step by simp
    from Cons.IH[OF this] show ?thesis unfolding it by (auto simp: dom_update)
  qed
qed

lemma calculate_loading_keys:
  assumes "calculate_loading opt rows us = Inr m" "a \<in> fst ` set m"
  shows "\<exists>c \<in> set us. assigned_to rows a c"
proof -
  from assms(1) obtain needed where t: "tally rows us [] = Inr needed"
    and l: "load_items opt (sort needed) [] 0 0 = Inr m"
    by (rule calculate_loadingE)
  from load_items_keys[OF l] assms(2) have "a \<in> fst ` set needed" by auto
  then show ?thesis using tally_result[OF t] by simp
qed

section \<open>The choice of the next recipient\<close>

lemma first_nearest_unique:
  assumes d: "distinct us"
    and c: "first_nearest geodesic rows pos cargo us c"
    and c': "first_nearest geodesic rows pos cargo us c'"
  shows "c' = c"
proof (rule ccontr)
  assume ne: "c' \<noteq> c"
  from c obtain p q where h: "us = p @ c # q" "deliverable rows cargo c"
    "\<forall>x \<in> set p. deliverable rows cargo x \<longrightarrow>
        distance_to geodesic rows pos c < distance_to geodesic rows pos x"
    unfolding first_nearest_def by blast
  from c' obtain p' q' where h': "us = p' @ c' # q'" "deliverable rows cargo c'"
    "\<forall>x \<in> set p'. deliverable rows cargo x \<longrightarrow>
        distance_to geodesic rows pos c' < distance_to geodesic rows pos x"
    unfolding first_nearest_def by blast
  have le: "distance_to geodesic rows pos c \<le> distance_to geodesic rows pos c'"
    using first_nearest_lower_bound[OF c _ h'(2)] h'(1) by simp
  have le': "distance_to geodesic rows pos c' \<le> distance_to geodesic rows pos c"
    using first_nearest_lower_bound[OF c' _ h(2)] h(1) by simp
  have "c' \<in> set p \<or> c' \<in> set q" using h(1) h'(1) ne by (metis in_set_conv_decomp set_ConsD Un_iff set_append)
  then show False
  proof
    assume "c' \<in> set p"
    with h(3) h'(2) le' show False by fastforce
  next
    assume cq: "c' \<in> set q"
    then obtain q1 q2 where q: "q = q1 @ c' # q2" by (auto simp: in_set_conv_decomp)
    have eq: "(p @ c # q1) @ c' # q2 = p' @ c' # q'" using h(1) h'(1) q by simp
    have "c' \<notin> set (p @ c # q1)" "c' \<notin> set q2" using d h(1) q by auto
    from append_Cons_eq_iff[OF this, of p' q'] eq have "p' = p @ c # q1" by simp
    then have "c \<in> set p'" by simp
    with h'(3) h(2) le show False by fastforce
  qed
qed

text \<open>C6: in an iteration in which some unvisited recipient is deliverable from the cargo,
  the loop delivers to the recipient that is deliverable, strictly nearer to the current
  position than every deliverable recipient enumerated before it, and at least as near as
  every deliverable recipient enumerated after it.  That recipient is unique, so the choice
  is a function of the position, the cargo and the enumeration of \<^verbatim>\<open>unvisited\<close>.\<close>

theorem nearest_deliverable_selected:
  assumes "loop_body geodesic opt rows s = Inr t"
    and "\<exists>c \<in> set (unvisited s). deliverable rows (current_cargo s) c"
    and "distinct (unvisited s)"
  shows "\<exists>c. first_nearest geodesic rows (current_position s) (current_cargo s) (unvisited s) c \<and>
             (\<forall>c'. first_nearest geodesic rows (current_position s) (current_cargo s) (unvisited s) c'
                \<longrightarrow> c' = c) \<and>
             route t = route s @ [Delivery c] \<and> unvisited t = remove1 c (unvisited s)"
  using assms(1)
proof (cases rule: loop_bodyE)
  case (reload bd)
  from scan_result[OF reload(1)] assms(2) show ?thesis by (simp add: scan_acc_def)
next
  case (deliver c bd)
  from scan_result[OF deliver(1)]
  have fn: "first_nearest geodesic rows (current_position s) (current_cargo s) (unvisited s) c"
    by (simp add: scan_acc_def)
  from deliver(2) have "route t = route s @ [Delivery c] \<and> unvisited t = remove1 c (unvisited s)"
    by (rule deliverE) (auto simp: set_remove_def split: if_splits)
  with fn first_nearest_unique[OF assms(3) fn] show ?thesis by blast
qed

theorem nearest_deliverable_selected_witness:
  "loop_body taxicab ex_opt (assign_gifts ex_opt) ex_loaded = Inr ex_delivered \<and>
   deliverable (assign_gifts ex_opt) (current_cargo ex_loaded) 1 \<and>
   distinct (unvisited ex_loaded) \<and>
   (\<exists>c. first_nearest taxicab (assign_gifts ex_opt) (current_position ex_loaded)
           (current_cargo ex_loaded) (unvisited ex_loaded) c \<and>
        route ex_delivered = route ex_loaded @ [Delivery c])"
proof -
  have a: "loop_body taxicab ex_opt (assign_gifts ex_opt) ex_loaded = Inr ex_delivered"
    by code_simp
  have b: "deliverable (assign_gifts ex_opt) (current_cargo ex_loaded) 1"
    by code_simp
  have c: "distinct (unvisited ex_loaded)"
    by code_simp
  have "1 \<in> set (unvisited ex_loaded)" by (simp add: ex_loaded_def)
  with b have "\<exists>c \<in> set (unvisited ex_loaded). deliverable (assign_gifts ex_opt) (current_cargo ex_loaded) c"
    by blast
  from nearest_deliverable_selected[OF a this c] a b c show ?thesis by blast
qed

section \<open>The cargo stays within the capacity\<close>












section \<open>The bookkeeping of recipients\<close>

lemma set_remove_result:
  "set_remove c us = Inr u \<Longrightarrow> c \<in> set us \<and> u = remove1 c us"
  by (simp add: set_remove_def split: if_splits)

lemma scan_Some_deliverable:
  assumes "scan geodesic rows pos cargo us None None = Inr (Some c, bd)"
  shows "c \<in> set us \<and> deliverable rows cargo c"
  using scan_result[OF assms] by (auto simp: scan_acc_def first_nearest_def)

lemma scan_None_undeliverable:
  assumes "scan geodesic rows pos cargo us None None = Inr (None, bd)"
  shows "\<forall>c \<in> set us. \<not> deliverable rows cargo c"
  using scan_result[OF assms] by (simp add: scan_acc_def)

lemma deliverable_cargo_nonempty: "deliverable rows cargo c \<Longrightarrow> cargo \<noteq> []"
  by (auto simp: deliverable_def can_deliver_def split: sum.splits)

lemma bookkeeping_initial: "distinct us \<Longrightarrow> bookkeeping opt rows us (initial_state us)"
  by (simp add: bookkeeping_def initial_state_def)

lemma bookkeeping_step:
  assumes inv: "bookkeeping opt rows us s" and body: "loop_body geodesic opt rows s = Inr t"
  shows "bookkeeping opt rows us t"
proof -
  from inv have d: "distinct (unvisited s @ deliveries (route s) @ warnings s)"
    and st: "set (unvisited s @ deliveries (route s) @ warnings s) = set us"
    and w: "list_all (oversized opt rows) (warnings s)"
    and dl: "list_all (\<lambda>c. \<not> oversized opt rows c) (deliveries (route s))"
    and cg: "(current_cargo s = [] \<and> route s = [] \<and> warnings s = []) \<or>
       list_all (\<lambda>c. \<not> oversized opt rows c) (unvisited s)"
    by (simp_all only: bookkeeping_def)
  from body show ?thesis
  proof (cases rule: loop_bodyE)
    case (reload bd)
    from reload(2) obtain und u where c: "classify opt rows (unvisited s) = Inr und"
      and r: "remove_each und (unvisited s) = Inr u"
      and f: "unvisited t = u" "warnings t = warnings s @ und"
        "deliveries (route t) = deliveries (route s)"
      by (cases rule: reloadE) (simp_all add: deliveries_append)
    from classify_result[OF c] have und: "und = filter (oversized opt rows) (unvisited s)" by simp
    from d have du: "distinct (unvisited s)" by simp
    from r have u: "u = filter (\<lambda>c. \<not> oversized opt rows c) (unvisited s)"
      unfolding und remove_oversized[OF du] by simp
    have 1: "distinct (unvisited t @ deliveries (route t) @ warnings t)"
      using d by (auto simp: f u und)
    have 2: "set (unvisited t @ deliveries (route t) @ warnings t) = set us"
      using st by (auto simp: f u und)
    have 3: "list_all (oversized opt rows) (warnings t)"
      using w by (auto simp: f und list_all_iff)
    have 4: "list_all (\<lambda>c. \<not> oversized opt rows c) (deliveries (route t))"
      using dl by (simp add: f)
    have 5: "list_all (\<lambda>c. \<not> oversized opt rows c) (unvisited t)"
      by (simp add: f u list_all_iff)
    from 1 2 3 4 5 show ?thesis by (simp only: bookkeeping_def simp_thms)
  next
    case (deliver c bd)
    from scan_Some_deliverable[OF deliver(1)]
    have cin: "c \<in> set (unvisited s)" and cd: "deliverable rows (current_cargo s) c" by simp_all
    from deliverable_cargo_nonempty[OF cd] cg
    have no: "list_all (\<lambda>c. \<not> oversized opt rows c) (unvisited s)" by blast
    from deliver(2) obtain u where r: "set_remove c (unvisited s) = Inr u"
      and f: "unvisited t = u" "warnings t = warnings s"
        "deliveries (route t) = deliveries (route s) @ [c]"
      by (cases rule: deliverE) (simp_all add: deliveries_append)
    from set_remove_result[OF r] have u: "u = remove1 c (unvisited s)" by simp
    from d have du: "distinct (unvisited s)" by simp
    have su: "set u = set (unvisited s) - {c}" using du by (simp add: u)
    have 1: "distinct (unvisited t @ deliveries (route t) @ warnings t)"
      using d cin by (auto simp: f su) (simp add: u)
    have 2: "set (unvisited t @ deliveries (route t) @ warnings t) = set us"
      using st cin by (auto simp: f su)
    have 3: "list_all (oversized opt rows) (warnings t)"
      using w by (simp add: f)
    have 4: "list_all (\<lambda>c. \<not> oversized opt rows c) (deliveries (route t))"
      using dl no cin by (simp add: f list_all_iff)
    have 5: "list_all (\<lambda>c. \<not> oversized opt rows c) (unvisited t)"
      using no by (simp add: f su list_all_iff)
    from 1 2 3 4 5 show ?thesis by (simp only: bookkeeping_def simp_thms)
  qed
qed

lemma bookkeeping_iterations:
  assumes "distinct us" "run_iterations geodesic opt rows n (initial_state us) = Inr t"
  shows "bookkeeping opt rows us t"
  by (rule run_iterations_invariant[where P = "bookkeeping opt rows us",
        OF _ bookkeeping_initial[OF assms(1)] assms(2)])
    (rule bookkeeping_step)

lemma optimize_routeE:
  assumes "optimize_route geodesic opt us = Some (Inr p)"
  obtains n s dt where "run_iterations geodesic opt (assign_gifts opt) n (initial_state us) = Inr s"
    "unvisited s = []"
    "float_div (geodesic (current_position s) NORTH_POLE) (speed_kmh opt) = Inr dt"
    "plan_route p = route s @ [Refuel []]" "plan_warnings p = warnings s"
    "plan_total_time p = total_time s + dt"
    "plan_advisory p = (if total_time s + dt > max_time_hours opt
        then Some ((total_time s + dt) / max_time_hours opt * speed_kmh opt) else None)"
proof -
  from assms obtain s where w: "while_unvisited geodesic opt (assign_gifts opt) (initial_state us) = Some (Inr s)"
    and f: "finish geodesic opt s = Inr p"
    unfolding optimize_route_def by (auto split: option.splits sum.splits)
  from while_unvisited_iterations[OF w] obtain n where
    n: "run_iterations geodesic opt (assign_gifts opt) n (initial_state us) = Inr s" "unvisited s = []"
    by auto
  from f obtain dt where dt: "float_div (geodesic (current_position s) NORTH_POLE) (speed_kmh opt) = Inr dt"
    unfolding finish_def by (auto split: sum.splits)
  with f have "p = \<lparr>plan_route = route s @ [Refuel []], plan_total_time = total_time s + dt,
      plan_warnings = warnings s,
      plan_advisory = (if total_time s + dt > max_time_hours opt
        then Some ((total_time s + dt) / max_time_hours opt * speed_kmh opt) else None)\<rparr>"
    unfolding finish_def by (simp add: Let_def)
  then show thesis using n dt by (intro that[of n s dt]) simp_all
qed

section \<open>Properties of the returned route\<close>

lemma ex_run: "optimize_route taxicab ex_opt [1, 2, 3] = Some (Inr ex_plan)"
  by code_simp

lemma ex_iterations:
  "run_iterations taxicab ex_opt (assign_gifts ex_opt) 2 (initial_state [1, 2, 3]) = Inr ex_delivered"
  by code_simp

lemma count_list_distinct: "distinct xs \<Longrightarrow> x \<in> set xs \<Longrightarrow> count_list xs x = 1"
  by (induction xs) auto

text \<open>C5: in the route that \<^verbatim>\<open>optimize_route\<close> returns, no recipient has two delivery
  events, and every delivery event is for a recipient of the initial set.\<close>

theorem each_recipient_delivered_at_most_once:
  assumes "distinct us" "optimize_route geodesic opt us = Some (Inr p)"
  shows "distinct (deliveries (plan_route p)) \<and> set (deliveries (plan_route p)) \<subseteq> set us"
proof -
  from assms(2) obtain n s where r: "run_iterations geodesic opt (assign_gifts opt) n (initial_state us) = Inr s"
    and p: "plan_route p = route s @ [Refuel []]"
    by (rule optimize_routeE)
  from bookkeeping_iterations[OF assms(1) r]
  have "distinct (unvisited s @ deliveries (route s) @ warnings s)"
    and "set (unvisited s @ deliveries (route s) @ warnings s) = set us"
    by (simp_all only: bookkeeping_def)
  then show ?thesis by (auto simp: p deliveries_append)
qed

theorem each_recipient_delivered_at_most_once_witness:
  "distinct [1, 2, 3 :: int] \<and> optimize_route taxicab ex_opt [1, 2, 3] = Some (Inr ex_plan) \<and>
   distinct (deliveries (plan_route ex_plan)) \<and> deliveries (plan_route ex_plan) = [3, 1]"
proof -
  have d: "distinct [1, 2, 3 :: int]" by simp
  have "deliveries (plan_route ex_plan) = [3, 1]" by (simp add: ex_plan_def)
  with each_recipient_delivered_at_most_once[OF d ex_run] d ex_run show ?thesis by simp
qed



text \<open>C8: a recipient whose gift exceeds \<^verbatim>\<open>max_weight\<close> or \<^verbatim>\<open>max_volume\<close> has no delivery
  event in the returned route and exactly one warning.  At every moment of the run either
  nothing has happened yet or the recipient has its one warning and is no longer unvisited.
  The run goes on for the others: every recipient that is not oversized has a delivery event
  in the returned route.\<close>

theorem oversized_recipient_dropped_with_one_warning:
  assumes "distinct us" "c \<in> set us" "oversized opt (assign_gifts opt) c"
  shows "(run_iterations geodesic opt (assign_gifts opt) n (initial_state us) = Inr s \<longrightarrow>
            (count_list (warnings s) c = 1 \<and> c \<notin> set (unvisited s) \<and>
             c \<notin> set (deliveries (route s))) \<or>
            (route s = [] \<and> warnings s = [])) \<and>
         (optimize_route geodesic opt us = Some (Inr p) \<longrightarrow>
            c \<notin> set (deliveries (plan_route p)) \<and> count_list (plan_warnings p) c = 1 \<and>
            (\<forall>c' \<in> set us. \<not> oversized opt (assign_gifts opt) c' \<longrightarrow>
               c' \<in> set (deliveries (plan_route p))))"
proof -
  have key: "(count_list (warnings t) c = 1 \<and> c \<notin> set (unvisited t) \<and>
             c \<notin> set (deliveries (route t))) \<or> (route t = [] \<and> warnings t = [])"
    and rest: "unvisited t = [] \<longrightarrow> (\<forall>c' \<in> set us. \<not> oversized opt (assign_gifts opt) c' \<longrightarrow>
               c' \<in> set (deliveries (route t)))"
    if "bookkeeping opt (assign_gifts opt) us t" for t
  proof -
    from that have d: "distinct (unvisited t @ deliveries (route t) @ warnings t)"
      and st: "set (unvisited t @ deliveries (route t) @ warnings t) = set us"
      and w: "list_all (oversized opt (assign_gifts opt)) (warnings t)"
      and dl: "list_all (\<lambda>c. \<not> oversized opt (assign_gifts opt) c) (deliveries (route t))"
      and cg: "(current_cargo t = [] \<and> route t = [] \<and> warnings t = []) \<or>
         list_all (\<lambda>c. \<not> oversized opt (assign_gifts opt) c) (unvisited t)"
      by (simp_all only: bookkeeping_def)
    from dl assms(3) have nd: "c \<notin> set (deliveries (route t))" by (auto simp: list_all_iff)
    show "(count_list (warnings t) c = 1 \<and> c \<notin> set (unvisited t) \<and>
             c \<notin> set (deliveries (route t))) \<or> (route t = [] \<and> warnings t = [])"
    proof (cases "route t = [] \<and> warnings t = []")
      case True
      then show ?thesis by simp
    next
      case False
      with cg assms(3) have nu: "c \<notin> set (unvisited t)" by (auto simp: list_all_iff)
      with nd st assms(2) have "c \<in> set (warnings t)" by auto
      moreover from d have "distinct (warnings t)" by simp
      ultimately have "count_list (warnings t) c = 1" by (simp add: count_list_distinct)
      with nu nd show ?thesis by simp
    qed
    show "unvisited t = [] \<longrightarrow> (\<forall>c' \<in> set us. \<not> oversized opt (assign_gifts opt) c' \<longrightarrow>
               c' \<in> set (deliveries (route t)))"
      using st w by (auto simp: list_all_iff)
  qed
  show ?thesis
  proof (intro conjI impI)
    assume "run_iterations geodesic opt (assign_gifts opt) n (initial_state us) = Inr s"
    from key[OF bookkeeping_iterations[OF assms(1) this]]
    show "(count_list (warnings s) c = 1 \<and> c \<notin> set (unvisited s) \<and>
             c \<notin> set (deliveries (route s))) \<or> (route s = [] \<and> warnings s = [])" .
  next
    assume "optimize_route geodesic opt us = Some (Inr p)"
    then obtain k t where r: "run_iterations geodesic opt (assign_gifts opt) k (initial_state us) = Inr t"
      and e: "unvisited t = []"
      and p: "plan_route p = route t @ [Refuel []]" "plan_warnings p = warnings t"
      by (rule optimize_routeE)
    note b = bookkeeping_iterations[OF assms(1) r]
    from b have st: "set (unvisited t @ deliveries (route t) @ warnings t) = set us"
      by (simp only: bookkeeping_def)
    from key[OF b] st e assms(2)
    have "count_list (warnings t) c = 1 \<and> c \<notin> set (deliveries (route t))" by auto
    then show "c \<notin> set (deliveries (plan_route p))" "count_list (plan_warnings p) c = 1"
      by (simp_all add: p deliveries_append)
    from rest[OF b] e
    show "\<forall>c' \<in> set us. \<not> oversized opt (assign_gifts opt) c' \<longrightarrow>
               c' \<in> set (deliveries (plan_route p))"
      by (simp add: p deliveries_append)
  qed
qed

theorem oversized_recipient_dropped_with_one_warning_witness:
  "distinct [1, 2, 3 :: int] \<and> oversized ex_opt (assign_gifts ex_opt) 2 \<and>
   run_iterations taxicab ex_opt (assign_gifts ex_opt) 2 (initial_state [1, 2, 3]) = Inr ex_delivered \<and>
   optimize_route taxicab ex_opt [1, 2, 3] = Some (Inr ex_plan) \<and>
   count_list (warnings ex_delivered) 2 = 1 \<and>
   2 \<notin> set (deliveries (plan_route ex_plan)) \<and> count_list (plan_warnings ex_plan) 2 = 1 \<and>
   1 \<in> set (deliveries (plan_route ex_plan)) \<and> 3 \<in> set (deliveries (plan_route ex_plan))"
proof -
  have d: "distinct [1, 2, 3 :: int]" and i: "2 \<in> set [1, 2, 3 :: int]" by simp_all
  have o: "oversized ex_opt (assign_gifts ex_opt) 2" by code_simp
  have o1: "\<not> oversized ex_opt (assign_gifts ex_opt) 1" by code_simp
  have o3: "\<not> oversized ex_opt (assign_gifts ex_opt) 3" by code_simp
  have r: "route ex_delivered \<noteq> []" by (simp add: ex_delivered_def)
  from oversized_recipient_dropped_with_one_warning[OF d i o, of taxicab 2 ex_delivered ex_plan]
    ex_iterations ex_run d o o1 o3 r
  show ?thesis by simp
qed

section \<open>The budget and the footprints\<close>

lemma initE:
  assumes "init children gifts sleigh_rows = Inr opt"
  obtains mw mv sp ts where
    "spec_get (load_sleigh_specs sleigh_rows) ''maximum weight'' = Inr mw"
    "spec_get (load_sleigh_specs sleigh_rows) ''maximum volume'' = Inr mv"
    "spec_get (load_sleigh_specs sleigh_rows) ''speed (km/h)'' = Inr sp"
    "spec_get (load_sleigh_specs sleigh_rows) ''time per stop (min)'' = Inr ts"
    "opt = \<lparr>children_df = children, gifts_df = gifts, max_weight = mw, max_volume = mv,
             speed_kmh = sp, time_per_stop_min = ts, max_time_hours = 7\<rparr>"
  using assms unfolding init_def Let_def
  by (auto split: sum.splits)

lemma finishE:
  assumes "finish geodesic opt s = Inr p"
  obtains dt where
    "float_div (geodesic (current_position s) NORTH_POLE) (speed_kmh opt) = Inr dt"
    "plan_route p = route s @ [Refuel []]" "plan_warnings p = warnings s"
    "plan_total_time p = total_time s + dt"
    "plan_advisory p = (if total_time s + dt > max_time_hours opt
        then Some ((total_time s + dt) / max_time_hours opt * speed_kmh opt) else None)"
proof -
  from assms obtain dt where dt: "float_div (geodesic (current_position s) NORTH_POLE) (speed_kmh opt) = Inr dt"
    unfolding finish_def by (auto split: sum.splits)
  with assms have "p = \<lparr>plan_route = route s @ [Refuel []], plan_total_time = total_time s + dt,
      plan_warnings = warnings s,
      plan_advisory = (if total_time s + dt > max_time_hours opt
        then Some ((total_time s + dt) / max_time_hours opt * speed_kmh opt) else None)\<rparr>"
    unfolding finish_def by (simp add: Let_def)
  then show thesis using dt by (intro that[of dt]) simp_all
qed

text \<open>C1, as the code has it: the budget of the check after the loop is the constant 7 that
  the constructor sets, whatever the sleigh file supplies; the four other fields of the
  profile are the values that the file gives under their keys.\<close>

theorem time_budget_is_the_constant_seven:
  assumes "init children gifts sleigh_rows = Inr opt"
  shows "max_time_hours opt = 7 \<and>
         load_sleigh_specs sleigh_rows ''maximum weight'' = Some (max_weight opt) \<and>
         load_sleigh_specs sleigh_rows ''maximum volume'' = Some (max_volume opt) \<and>
         load_sleigh_specs sleigh_rows ''speed (km/h)'' = Some (speed_kmh opt) \<and>
         load_sleigh_specs sleigh_rows ''time per stop (min)'' = Some (time_per_stop_min opt) \<and>
         (finish geodesic opt s = Inr p \<longrightarrow> (plan_advisory p \<noteq> None \<longleftrightarrow> 7 < plan_total_time p))"
  using assms
proof (cases rule: initE)
  case (1 mw mv sp ts)
  have seven: "max_time_hours opt = 7" using 1(5) by simp
  have "finish geodesic opt s = Inr p \<longrightarrow> (plan_advisory p \<noteq> None \<longleftrightarrow> 7 < plan_total_time p)"
  proof
    assume "finish geodesic opt s = Inr p"
    then obtain dt where t: "plan_total_time p = total_time s + dt"
      and a: "plan_advisory p = (if total_time s + dt > max_time_hours opt
        then Some ((total_time s + dt) / max_time_hours opt * speed_kmh opt) else None)"
      by (rule finishE)
    show "plan_advisory p \<noteq> None \<longleftrightarrow> 7 < plan_total_time p"
    proof (cases "7 < total_time s + dt")
      case True
      with a seven have "plan_advisory p \<noteq> None" by (simp only: if_True) simp
      with True t show ?thesis by simp
    next
      case False
      with a seven have "plan_advisory p = None" by (simp only: if_False)
      with False t show ?thesis by simp
    qed
  qed
  moreover note seven
  moreover have "load_sleigh_specs sleigh_rows ''maximum weight'' = Some (max_weight opt)"
    using 1(1,5) by (simp add: spec_get_def split: option.splits)
  moreover have "load_sleigh_specs sleigh_rows ''maximum volume'' = Some (max_volume opt)"
    using 1(2,5) by (simp add: spec_get_def split: option.splits)
  moreover have "load_sleigh_specs sleigh_rows ''speed (km/h)'' = Some (speed_kmh opt)"
    using 1(3,5) by (simp add: spec_get_def split: option.splits)
  moreover have "load_sleigh_specs sleigh_rows ''time per stop (min)'' = Some (time_per_stop_min opt)"
    using 1(4,5) by (simp add: spec_get_def split: option.splits)
  ultimately show ?thesis by blast
qed

lemma ex_init: "init ex_children ex_gifts ex_sleigh_rows = Inr ex_opt"
  by code_simp

theorem time_budget_is_the_constant_seven_witness:
  "init ex_children ex_gifts ex_sleigh_rows = Inr ex_opt \<and> max_time_hours ex_opt = 7 \<and>
   load_sleigh_specs ex_sleigh_rows ''maximum weight'' = Some (max_weight ex_opt)"
  using time_budget_is_the_constant_seven[OF ex_init] ex_init by blast

text \<open>C1, as the claim has it, fails: the sleigh file of the instance supplies a budget of
  ten hours and the value 7 nowhere, and the optimizer is built with the budget 7; the run of
  eleven hours is advised a speed of \<open>11 / 7 \<times> 10\<close>, not of \<open>11 / 10 \<times> 10\<close>.\<close>

theorem time_budget_not_taken_from_profile:
  "init ex_children ex_gifts ex_sleigh_rows = Inr ex_opt \<and>
   load_sleigh_specs ex_sleigh_rows ''maximum time (h)'' = Some 10 \<and>
   max_time_hours ex_opt \<notin> snd ` set ex_sleigh_rows \<and>
   max_time_hours ex_opt = 7 \<and>
   optimize_route taxicab ex_opt [1, 2, 3] = Some (Inr ex_plan) \<and>
   plan_total_time ex_plan = 11 \<and>
   plan_advisory ex_plan = Some (11 / 7 * 10) \<and>
   plan_advisory ex_plan \<noteq> Some (11 / 10 * 10)"
proof -
  have "load_sleigh_specs ex_sleigh_rows ''maximum time (h)'' = Some 10"
    by (simp add: load_sleigh_specs_def ex_sleigh_rows_def)
  moreover have "max_time_hours ex_opt = 7" by (simp add: ex_opt_def)
  moreover have "max_time_hours ex_opt \<notin> snd ` set ex_sleigh_rows"
    by (simp add: ex_opt_def ex_sleigh_rows_def)
  moreover have "plan_total_time ex_plan = 11" "plan_advisory ex_plan = Some (11 / 7 * 10)"
    "plan_advisory ex_plan \<noteq> Some (11 / 10 * 10)"
    by (simp_all add: ex_plan_def)
  ultimately show ?thesis using ex_init ex_run by blast
qed

text \<open>C9: a returned plan carries the advisory exactly when its total time exceeds
  \<^verbatim>\<open>max_time_hours\<close>, the advised speed is \<open>total_time / max_time_hours \<times> speed_kmh\<close>, and
  with or without the advisory the route is the whole route of the loop, run until no
  recipient is unvisited, followed by the closing reload.\<close>

theorem advisory_iff_budget_exceeded:
  assumes "optimize_route geodesic opt us = Some (Inr p)"
  shows "(plan_advisory p \<noteq> None \<longleftrightarrow> max_time_hours opt < plan_total_time p) \<and>
         (max_time_hours opt < plan_total_time p \<longrightarrow>
            plan_advisory p = Some (plan_total_time p / max_time_hours opt * speed_kmh opt)) \<and>
         (\<exists>n s. run_iterations geodesic opt (assign_gifts opt) n (initial_state us) = Inr s \<and>
                unvisited s = [] \<and> plan_route p = route s @ [Refuel []])"
  using assms
proof (cases rule: optimize_routeE)
  case (1 n s dt)
  have "(plan_advisory p \<noteq> None \<longleftrightarrow> max_time_hours opt < plan_total_time p) \<and>
     (max_time_hours opt < plan_total_time p \<longrightarrow>
        plan_advisory p = Some (plan_total_time p / max_time_hours opt * speed_kmh opt))"
  proof (cases "max_time_hours opt < total_time s + dt")
    case True
    with 1(7) have "plan_advisory p = Some ((total_time s + dt) / max_time_hours opt * speed_kmh opt)"
      by (simp only: if_True)
    with True show ?thesis by (simp only: 1(6)) simp
  next
    case False
    with 1(7) have "plan_advisory p = None" by (simp only: if_False)
    with False show ?thesis by (simp only: 1(6)) simp
  qed
  with 1(1,2,4) show ?thesis by blast
qed

theorem advisory_iff_budget_exceeded_witness:
  "optimize_route taxicab ex_opt [1, 2, 3] = Some (Inr ex_plan) \<and>
   max_time_hours ex_opt < plan_total_time ex_plan \<and>
   plan_advisory ex_plan = Some (plan_total_time ex_plan / max_time_hours ex_opt * speed_kmh ex_opt) \<and>
   plan_route ex_plan = [Refuel [(0, 1), (5, 1)], Delivery 3, Delivery 1, Refuel []]"
proof -
  have "max_time_hours ex_opt < plan_total_time ex_plan" by (simp add: ex_opt_def ex_plan_def)
  moreover have "plan_route ex_plan = [Refuel [(0, 1), (5, 1)], Delivery 3, Delivery 1, Refuel []]"
    by (simp add: ex_plan_def)
  ultimately show ?thesis using advisory_iff_budget_exceeded[OF ex_run] ex_run by blast
qed

text \<open>C2 fails on the code: the coal of this catalog has the weight 0, the quotient of the
  free weight by it is infinite, and \<^verbatim>\<open>int\<close> of it raises \<^verbatim>\<open>OverflowError\<close> in
  \<^verbatim>\<open>calculate_loading\<close>.\<close>

theorem zero_footprint_raises_in_calculate_loading:
  "int_of_quotient (max_weight ex_coal_opt - 0) 0 = Inl OverflowError \<and>
   calculate_loading ex_coal_opt (assign_gifts ex_coal_opt) [1] = Inl OverflowError"
  by code_simp

text \<open>C3 fails on the code for the same catalog: the run ends with the exception in its
  first iteration, and its one recipient is neither served nor warned.\<close>

theorem zero_footprint_run_aborts:
  "optimize_route taxicab ex_coal_opt [1] = Some (Inl OverflowError) \<and>
   run_iterations taxicab ex_coal_opt (assign_gifts ex_coal_opt) 1 (initial_state [1]) = Inl OverflowError \<and>
   \<not> oversized ex_coal_opt (assign_gifts ex_coal_opt) 1"
  by code_simp

section \<open>The catalog row joined to a recipient\<close>

lemma find_filter: "find P xs = (case filter P xs of [] \<Rightarrow> None | x # _ \<Rightarrow> Some x)"
  by (induction xs) simp_all

lemma find_append_skip: "\<forall>r \<in> set ys. \<not> P r \<Longrightarrow> find P (ys @ zs) = find P zs"
  by (induction ys) simp_all

lemma merge_row_children: "r \<in> set (merge_row gifts x) \<Longrightarrow> child r = child x"
  by (auto simp: merge_row_def mk_assigned_def Let_def split: list.splits)

lemma merge_row_first:
  "\<exists>rs. merge_row gifts x =
     mk_assigned x (if naughty x = 0 then wish x else COAL_ARTICLE_ID)
       (find (\<lambda>g. article g = (if naughty x = 0 then wish x else COAL_ARTICLE_ID)) gifts) # rs"
  by (simp add: merge_row_def find_filter Let_def split: list.splits)

lemma find_merged:
  "find (\<lambda>r. child r = c) (concat (map (merge_row gifts) xs)) = Some ch \<Longrightarrow>
     gift ch = find (\<lambda>g. article g = assigned_article ch) gifts"
proof (induction xs)
  case Nil
  then show ?case by simp
next
  case (Cons x xs)
  obtain rs where m: "merge_row gifts x =
     mk_assigned x (if naughty x = 0 then wish x else COAL_ARTICLE_ID)
       (find (\<lambda>g. article g = (if naughty x = 0 then wish x else COAL_ARTICLE_ID)) gifts) # rs"
    using merge_row_first by blast
  show ?case
  proof (cases "child x = c")
    case True
    then have "ch = mk_assigned x (if naughty x = 0 then wish x else COAL_ARTICLE_ID)
       (find (\<lambda>g. article g = (if naughty x = 0 then wish x else COAL_ARTICLE_ID)) gifts)"
      using Cons.prems by (simp add: m mk_assigned_def)
    then show ?thesis by (simp add: mk_assigned_def)
  next
    case False
    then have "\<forall>r \<in> set (merge_row gifts x). \<not> child r = c"
      by (auto dest: merge_row_children)
    then have "find (\<lambda>r. child r = c) (merge_row gifts x @ concat (map (merge_row gifts) xs)) =
       find (\<lambda>r. child r = c) (concat (map (merge_row gifts) xs))"
      by (rule find_append_skip)
    with Cons show ?thesis by simp
  qed
qed

lemma footprint_resolved:
  "footprint_positive opt c \<Longrightarrow> resolved_positive opt (assign_gifts opt) c"
proof -
  assume a: "footprint_positive opt c"
  then obtain ch where ch: "find_child (assign_gifts opt) c = Inr ch"
    by (auto simp: footprint_positive_def split: sum.splits)
  with a obtain g where g: "find_gift (gifts_df opt) (assigned_article ch) = Inr g"
    "0 < weight g" "0 < volume g"
    by (auto simp: footprint_positive_def split: sum.splits)
  from ch have "find (\<lambda>r. child r = c) (concat (map (merge_row (gifts_df opt)) (children_df opt))) = Some ch"
    by (simp add: find_child_def assign_gifts_def split: option.splits)
  from find_merged[OF this] g(1) have "gift ch = Some g"
    by (simp add: find_gift_def split: option.splits)
  with ch g show ?thesis by (simp add: resolved_positive_def)
qed

section \<open>Reloads are followed by deliveries\<close>

lemma load_items_counts:
  assumes "load_items opt items loaded cw cv = Inr m" "positive_counts loaded"
  shows "positive_counts m"
  using assms
proof (induction items arbitrary: loaded cw cv)
  case Nil
  then show ?case by simp
next
  case (Cons it items)
  obtain b n where it: "it = (b, n)" by (cases it)
  from Cons.prems(1) it obtain g qw qv where
    g: "find_gift (gifts_df opt) b = Inr g"
    and qw: "int_of_quotient (max_weight opt - cw) (weight g) = Inr qw"
    and qv: "int_of_quotient (max_volume opt - cv) (volume g) = Inr qv"
    by (auto split: sum.splits)
  define k where "k = min (min qw qv) n"
  note step = load_items_Cons[OF g qw qv k_def, of items loaded]
  show ?case
  proof (cases "0 < k")
    case False
    then have "load_items opt items loaded cw cv = Inr m"
      using Cons.prems(1) unfolding it step by simp
    from Cons.IH[OF this Cons.prems(2)] show ?thesis .
  next
    case True
    then have r: "load_items opt items (AList.update b k loaded)
        (cw + of_int k * weight g) (cv + of_int k * volume g) = Inr m"
      using Cons.prems(1) unfolding it step by simp
    have "set (AList.update b k loaded) \<subseteq> insert (b, k) (set loaded)"
      by (induction loaded) auto
    with Cons.prems(2) True have "positive_counts (AList.update b k loaded)"
      by (auto simp: positive_counts_def list_all_iff)
    from Cons.IH[OF r this] show ?thesis .
  qed
qed

lemma calculate_loading_counts:
  assumes "calculate_loading opt rows us = Inr m"
  shows "positive_counts m"
proof -
  from assms obtain needed where "load_items opt (sort needed) [] 0 0 = Inr m"
    by (rule calculate_loadingE)
  then show ?thesis by (rule load_items_counts) (simp add: positive_counts_def)
qed

lemma resolved_positiveE:
  assumes "resolved_positive opt rows c"
  obtains ch g where "find_child rows c = Inr ch"
    "find_gift (gifts_df opt) (assigned_article ch) = Inr g" "gift ch = Some g"
    "0 < weight g" "0 < volume g"
proof -
  from assms obtain ch where ch: "find_child rows c = Inr ch"
    unfolding resolved_positive_def by (cases "find_child rows c") simp_all
  from assms ch obtain g where g: "find_gift (gifts_df opt) (assigned_article ch) = Inr g"
    unfolding resolved_positive_def
    by (cases "find_gift (gifts_df opt) (assigned_article ch)") simp_all
  from assms ch g have "gift ch = Some g" "0 < weight g" "0 < volume g"
    unfolding resolved_positive_def by simp_all
  with ch g show thesis by (rule that)
qed

lemma calculate_loading_serves:
  assumes m: "calculate_loading opt rows u = Inr m" and ne: "u \<noteq> []"
    and pos: "\<forall>c \<in> set u. resolved_positive opt rows c"
    and fit: "\<forall>c \<in> set u. \<not> oversized opt rows c"
  shows "\<exists>c \<in> set u. deliverable rows m c"
proof -
  from m obtain needed where t: "tally rows u [] = Inr needed"
    and l: "load_items opt (sort needed) [] 0 0 = Inr m"
    by (rule calculate_loadingE)
  from ne obtain c0 where c0: "c0 \<in> set u" by (cases u) auto
  with pos have "resolved_positive opt rows c0" by simp
  then obtain ch0 where "find_child rows c0 = Inr ch0" by (rule resolved_positiveE)
  then have "assigned_to rows (assigned_article ch0) c0" by (simp add: assigned_to_def)
  with c0 have "\<exists>c \<in> set u. assigned_to rows (assigned_article ch0) c" by blast
  from tally_entries(3)[OF t this] have "set needed \<noteq> {}" by auto
  then have "sort needed \<noteq> []" by (metis set_empty set_sort)
  then obtain a n items where s: "sort needed = (a, n) # items" by (cases "sort needed") auto
  then have "(a, n) \<in> set needed" by (metis list.set_intros(1) set_sort)
  from tally_entries(2)[OF t this] have n: "0 < n" by simp
  have "a \<in> fst ` set needed" using \<open>(a, n) \<in> set needed\<close> by (force simp: image_iff)
  with tally_result[OF t] obtain c where c: "c \<in> set u" "assigned_to rows a c" by auto
  from c(2) obtain ch where ch: "find_child rows c = Inr ch" "assigned_article ch = a"
    by (auto simp: assigned_to_def split: sum.splits)
  from pos c(1) have "resolved_positive opt rows c" by simp
  then obtain g where g: "find_gift (gifts_df opt) a = Inr g" "gift ch = Some g"
    "0 < weight g" "0 < volume g"
    using ch by (auto elim: resolved_positiveE)
  from fit c(1) ch g(2) have le: "weight g \<le> max_weight opt" "volume g \<le> max_volume opt"
    by (auto simp: oversized_def too_big_def)
  have "distinct (map fst (sort needed))"
    using tally_entries(1)[OF t] by (rule distinct_keys_sort)
  then have fresh: "a \<notin> fst ` set items" by (simp add: s)
  from load_items_first[OF l[unfolded s] g(1) g(3) le(1) g(4) le(2) n fresh]
  obtain k where "0 < k" "map_of m a = Some k" by blast
  then have "deliverable rows m c" using ch by (simp add: deliverable_def can_deliver_def)
  with c(1) show ?thesis by blast
qed

lemma reloads_followed_delivery:
  "reloads_followed evs \<Longrightarrow> reloads_followed (evs @ [Delivery c])"
  by (induction evs rule: reloads_followed.induct) (auto split: list.splits stop.splits)

lemma reloads_followed_reload_delivery:
  "reloads_followed evs \<Longrightarrow> m \<noteq> [] \<Longrightarrow> positive_counts m \<Longrightarrow>
     reloads_followed (evs @ [Refuel m, Delivery c])"
  by (induction evs rule: reloads_followed.induct) (auto split: list.splits stop.splits)

lemma no_idle_reload_initial: "no_idle_reload opt rows (initial_state us)"
  by (simp add: no_idle_reload_def initial_state_def)

lemma reloads_served_initial: "reloads_served rows (initial_state us)"
  by (simp add: reloads_served_def initial_state_def)

lemma no_idle_reload_step:
  assumes bk: "bookkeeping opt rows us s" and inv: "no_idle_reload opt rows s"
    and body: "loop_body geodesic opt rows s = Inr t"
  shows "no_idle_reload opt rows t"
  using body
proof (cases rule: loop_bodyE)
  case (reload bd)
  from bk have du: "distinct (unvisited s)" by (simp add: bookkeeping_def)
  from reload(2) show ?thesis
  proof (cases rule: reloadE)
    case (emptied und)
    from classify_result[OF emptied(1)] have und: "und = filter (oversized opt rows) (unvisited s)"
      by simp
    from emptied(2) have e: "filter (\<lambda>c. \<not> oversized opt rows c) (unvisited s) = []"
      unfolding und remove_oversized[OF du] by simp
    show ?thesis
    proof (cases "rev (route s)")
      case Nil
      then show ?thesis by (simp add: no_idle_reload_def emptied(5))
    next
      case (Cons ev evs)
      show ?thesis
      proof (cases ev)
        case (Delivery c)
        then show ?thesis using Cons by (simp add: no_idle_reload_def emptied(5))
      next
        case (Refuel m)
        with inv Cons have "unvisited s \<noteq> []"
          "list_all (\<lambda>c. \<not> oversized opt rows c) (unvisited s)"
          by (simp_all add: no_idle_reload_def)
        then have "filter (\<lambda>c. \<not> oversized opt rows c) (unvisited s) = unvisited s"
          by (simp add: list_all_iff)
        with e \<open>unvisited s \<noteq> []\<close> show ?thesis by simp
      qed
    qed
  next
    case (loaded und u dt m)
    from classify_result[OF loaded(1)] have und: "und = filter (oversized opt rows) (unvisited s)"
      by simp
    from loaded(2) have u: "u = filter (\<lambda>c. \<not> oversized opt rows c) (unvisited s)"
      unfolding und remove_oversized[OF du] by simp
    then have "list_all (\<lambda>c. \<not> oversized opt rows c) u" by (simp add: list_all_iff)
    with loaded(3) show ?thesis by (simp add: no_idle_reload_def loaded(6,8))
  qed
next
  case (deliver c bd)
  from deliver(2) have "route t = route s @ [Delivery c]" by (rule deliverE)
  then show ?thesis by (simp add: no_idle_reload_def)
qed

lemma reloads_served_idle:
  assumes "reloads_served rows s" "\<not> pending rows s"
  shows "reloads_followed (route s)" "\<And>m pre. rev (route s) \<noteq> Refuel m # pre"
  using assms by (auto simp: reloads_served_def split: list.splits stop.splits)

lemma reloads_served_no_trailing:
  assumes "reloads_followed (route t)" "\<And>m pre. rev (route t) \<noteq> Refuel m # pre"
  shows "reloads_served rows t"
  using assms by (auto simp: reloads_served_def split: list.splits stop.splits)

lemma reloads_served_step:
  assumes bk: "bookkeeping opt rows us s" and inv: "reloads_served rows s"
    and pos: "\<forall>c \<in> set us. resolved_positive opt rows c"
    and body: "loop_body geodesic opt rows s = Inr t"
  shows "reloads_served rows t"
  using body
proof (cases rule: loop_bodyE)
  case (reload bd)
  from scan_None_undeliverable[OF reload(1)] have np: "\<not> pending rows s"
    by (simp add: pending_def list_ex_iff)
  note idle = reloads_served_idle[OF inv np]
  note fol = idle(1)
  from bk have du: "distinct (unvisited s)" and sub: "set (unvisited s) \<subseteq> set us"
    by (auto simp: bookkeeping_def)
  from reload(2) show ?thesis
  proof (cases rule: reloadE)
    case (emptied und)
    have "reloads_followed (route t)" unfolding emptied(5) by (rule idle(1))
    moreover have "\<And>m pre. rev (route t) \<noteq> Refuel m # pre"
      unfolding emptied(5) by (rule idle(2))
    ultimately show ?thesis by (rule reloads_served_no_trailing)
  next
    case (loaded und u dt m)
    from classify_result[OF loaded(1)] have und: "und = filter (oversized opt rows) (unvisited s)"
      by simp
    from loaded(2) have u: "u = filter (\<lambda>c. \<not> oversized opt rows c) (unvisited s)"
      unfolding und remove_oversized[OF du] by simp
    have "\<forall>c \<in> set u. resolved_positive opt rows c" "\<forall>c \<in> set u. \<not> oversized opt rows c"
      using pos sub by (auto simp: u)
    from calculate_loading_serves[OF loaded(5,3) this]
    obtain c where c: "c \<in> set u" "deliverable rows m c" by blast
    then have p: "pending rows t" by (auto simp: pending_def list_ex_iff loaded(6,9))
    from deliverable_cargo_nonempty[OF c(2)] have "m \<noteq> []" .
    with p fol calculate_loading_counts[OF loaded(5)] show ?thesis
      by (simp add: reloads_served_def loaded(8))
  qed
next
  case (deliver c bd)
  from deliver(2) have r: "route t = route s @ [Delivery c]" by (rule deliverE)
  have "reloads_followed (route t)"
  proof (cases "rev (route s)")
    case Nil
    then show ?thesis by (simp add: r)
  next
    case (Cons ev evs)
    then have rs: "route s = rev evs @ [ev]" by (metis rev.simps(2) rev_rev_ident)
    show ?thesis
    proof (cases ev)
      case (Delivery c')
      with inv Cons have "reloads_followed (route s)" by (simp add: reloads_served_def)
      then show ?thesis unfolding r by (rule reloads_followed_delivery)
    next
      case (Refuel m)
      with inv Cons have "reloads_followed (rev evs)" "m \<noteq> []" "positive_counts m"
        by (simp_all add: reloads_served_def)
      from reloads_followed_reload_delivery[OF this, of c] show ?thesis
        by (simp add: r rs Refuel)
    qed
  qed
  then show ?thesis by (simp add: reloads_served_def r)
qed

section \<open>The shape of the returned route\<close>

lemma no_idle_reload_iterations:
  assumes "distinct us" "run_iterations geodesic opt rows n (initial_state us) = Inr t"
  shows "no_idle_reload opt rows t"
proof -
  have "bookkeeping opt rows us t \<and> no_idle_reload opt rows t"
  proof (rule run_iterations_invariant[where P = "\<lambda>s. bookkeeping opt rows us s \<and> no_idle_reload opt rows s",
        OF _ _ assms(2)])
    show "bookkeeping opt rows us (initial_state us) \<and> no_idle_reload opt rows (initial_state us)"
      using bookkeeping_initial[OF assms(1)] no_idle_reload_initial by blast
  next
    fix s t
    assume "bookkeeping opt rows us s \<and> no_idle_reload opt rows s"
      and "loop_body geodesic opt rows s = Inr t"
    then show "bookkeeping opt rows us t \<and> no_idle_reload opt rows t"
      using bookkeeping_step no_idle_reload_step by blast
  qed
  then show ?thesis ..
qed

lemma reloads_served_iterations:
  assumes "distinct us" "\<forall>c \<in> set us. resolved_positive opt rows c"
    and "run_iterations geodesic opt rows n (initial_state us) = Inr t"
  shows "reloads_served rows t"
proof -
  have "bookkeeping opt rows us t \<and> reloads_served rows t"
  proof (rule run_iterations_invariant[where P = "\<lambda>s. bookkeeping opt rows us s \<and> reloads_served rows s",
        OF _ _ assms(3)])
    show "bookkeeping opt rows us (initial_state us) \<and> reloads_served rows (initial_state us)"
      using bookkeeping_initial[OF assms(1)] reloads_served_initial by blast
  next
    fix s t
    assume "bookkeeping opt rows us s \<and> reloads_served rows s"
      and "loop_body geodesic opt rows s = Inr t"
    then show "bookkeeping opt rows us t \<and> reloads_served rows t"
      using bookkeeping_step reloads_served_step[OF _ _ assms(2)] by blast
  qed
  then show ?thesis ..
qed

lemma positive_footprints_resolved:
  "list_all (footprint_positive opt) us \<Longrightarrow> \<forall>c \<in> set us. resolved_positive opt (assign_gifts opt) c"
  by (simp add: list_all_iff footprint_resolved)

text \<open>C10: the returned route ends with a reload event with the empty manifest, and the
  event before it, if there is one, is a delivery event, so that this closing event is the
  only trailing reload.  When every recipient has a gift that the catalog resolves with a
  positive weight and a positive volume, every other reload event of the route loads at
  least one unit and is followed at once by a delivery event.\<close>

theorem route_closes_with_one_empty_reload:
  assumes "distinct us" "optimize_route geodesic opt us = Some (Inr p)"
  shows "plan_route p \<noteq> [] \<and> last (plan_route p) = Refuel [] \<and>
         (butlast (plan_route p) = [] \<or> (\<exists>c. last (butlast (plan_route p)) = Delivery c)) \<and>
         (list_all (footprint_positive opt) us \<longrightarrow> reloads_followed (butlast (plan_route p)))"
  using assms(2)
proof (cases rule: optimize_routeE)
  case (1 n s dt)
  have b: "butlast (plan_route p) = route s" by (simp add: 1(4))
  from no_idle_reload_iterations[OF assms(1) 1(1)] 1(2)
  have nt: "\<And>m pre. rev (route s) \<noteq> Refuel m # pre"
    by (auto simp: no_idle_reload_def split: list.splits stop.splits)
  have "route s = [] \<or> (\<exists>c. last (route s) = Delivery c)"
  proof (cases "route s" rule: rev_cases)
    case Nil
    then show ?thesis by simp
  next
    case (snoc evs ev)
    with nt show ?thesis by (cases ev) auto
  qed
  moreover have "reloads_followed (route s)" if "list_all (footprint_positive opt) us"
  proof -
    from reloads_served_iterations[OF assms(1) positive_footprints_resolved[OF that] 1(1)]
    have "reloads_served (assign_gifts opt) s" .
    moreover have "\<not> pending (assign_gifts opt) s" by (simp add: pending_def 1(2))
    ultimately show ?thesis by (rule reloads_served_idle(1))
  qed
  ultimately show ?thesis by (simp add: b) (simp add: 1(4))
qed

theorem route_closes_with_one_empty_reload_witness:
  "distinct [1, 2, 3 :: int] \<and> optimize_route taxicab ex_opt [1, 2, 3] = Some (Inr ex_plan) \<and>
   list_all (footprint_positive ex_opt) [1, 2, 3] \<and>
   last (plan_route ex_plan) = Refuel [] \<and>
   butlast (plan_route ex_plan) = [Refuel [(0, 1), (5, 1)], Delivery 3, Delivery 1] \<and>
   reloads_followed (butlast (plan_route ex_plan))"
proof -
  have d: "distinct [1, 2, 3 :: int]" by simp
  have f: "list_all (footprint_positive ex_opt) [1, 2, 3]" by code_simp
  have b: "butlast (plan_route ex_plan) = [Refuel [(0, 1), (5, 1)], Delivery 3, Delivery 1]"
    by (simp add: ex_plan_def)
  from route_closes_with_one_empty_reload[OF d ex_run] f d ex_run b show ?thesis by blast
qed

section \<open>The loader and the fill of the specification\<close>

lemma py_int_floor: "(0 < py_int x \<longleftrightarrow> 0 < \<lfloor>x\<rfloor>) \<and> (0 < \<lfloor>x\<rfloor> \<longrightarrow> py_int x = \<lfloor>x\<rfloor>)"
proof (cases "0 \<le> x")
  case True
  then show ?thesis by (simp add: py_int_def)
next
  case False
  then have "x < 0" by simp
  then have "\<lceil>x\<rceil> \<le> 0" "\<lfloor>x\<rfloor> < 0" by (simp_all add: ceiling_le_zero floor_less_zero less_imp_le)
  with False show ?thesis by (simp add: py_int_def)
qed

lemma min_py_int_floor:
  "(0 < min (min (py_int x) (py_int y)) n \<longleftrightarrow> 0 < min (min \<lfloor>x\<rfloor> \<lfloor>y\<rfloor>) n) \<and>
   (0 < min (min \<lfloor>x\<rfloor> \<lfloor>y\<rfloor>) n \<longrightarrow> min (min (py_int x) (py_int y)) n = min (min \<lfloor>x\<rfloor> \<lfloor>y\<rfloor>) n)"
  using py_int_floor[of x] py_int_floor[of y] by auto

lemma load_items_spec_fill:
  assumes "\<forall>(a, n) \<in> set items. \<exists>g. find_gift (gifts_df opt) a = Inr g \<and> weight g \<noteq> 0 \<and> volume g \<noteq> 0"
    and "distinct (map fst items)" "fst ` set items \<inter> fst ` set loaded = {}"
  shows "load_items opt items loaded cw cv =
     Inr (loaded @ spec_fill (gifts_df opt) items (max_weight opt - cw) (max_volume opt - cv))"
  using assms
proof (induction items arbitrary: loaded cw cv)
  case Nil
  then show ?case by simp
next
  case (Cons it items)
  obtain a n where it: "it = (a, n)" by (cases it)
  from Cons.prems(1) it obtain g where g: "find_gift (gifts_df opt) a = Inr g"
    "weight g \<noteq> 0" "volume g \<noteq> 0" by auto
  have uw: "unit_weight (gifts_df opt) a = weight g" and uv: "unit_volume (gifts_df opt) a = volume g"
    using g by (simp_all add: unit_weight_def unit_volume_def)
  let ?x = "(max_weight opt - cw) / weight g" and ?y = "(max_volume opt - cv) / volume g"
  have qw: "int_of_quotient (max_weight opt - cw) (weight g) = Inr (py_int ?x)"
    and qv: "int_of_quotient (max_volume opt - cv) (volume g) = Inr (py_int ?y)"
    using g by (simp_all add: int_of_quotient_def)
  define k where "k = min (min (py_int ?x) (py_int ?y)) n"
  define k' where "k' = min (min \<lfloor>?x\<rfloor> \<lfloor>?y\<rfloor>) n"
  have kk: "(0 < k \<longleftrightarrow> 0 < k') \<and> (0 < k' \<longrightarrow> k = k')"
    unfolding k_def k'_def by (rule min_py_int_floor)
  note step = load_items_Cons[OF g(1) qw qv k_def, of items loaded]
  have sf: "spec_fill (gifts_df opt) ((a, n) # items) (max_weight opt - cw) (max_volume opt - cv) =
     (if 0 < k' then (a, k') # spec_fill (gifts_df opt) items (max_weight opt - cw - of_int k' * weight g)
                          (max_volume opt - cv - of_int k' * volume g)
      else spec_fill (gifts_df opt) items (max_weight opt - cw) (max_volume opt - cv))"
    by (simp add: uw uv k'_def Let_def)
  have rest: "\<forall>(a, n) \<in> set items. \<exists>g. find_gift (gifts_df opt) a = Inr g \<and> weight g \<noteq> 0 \<and> volume g \<noteq> 0"
    using Cons.prems(1) by simp
  have dist': "distinct (map fst items)" and disj': "fst ` set items \<inter> fst ` set loaded = {}"
    using Cons.prems(2,3) by auto
  have fresh: "a \<notin> fst ` set loaded" using Cons.prems(3) it by auto
  have anot: "a \<notin> fst ` set items" using Cons.prems(2) it by (auto simp: image_iff)
  show ?case
  proof (cases "0 < k'")
    case False
    with kk have "\<not> 0 < k" by simp
    with False show ?thesis
      unfolding it step sf using Cons.IH[OF rest dist' disj'] by simp
  next
    case True
    with kk have k: "0 < k" "k = k'" by simp_all
    have l: "AList.update a k' loaded = loaded @ [(a, k')]" using fresh by (rule update_fresh)
    have disj2: "fst ` set items \<inter> fst ` set (loaded @ [(a, k)]) = {}"
      using disj' anot by auto
    have "load_items opt items (loaded @ [(a, k)]) (cw + of_int k * weight g) (cv + of_int k * volume g) =
       Inr ((loaded @ [(a, k)]) @ spec_fill (gifts_df opt) items
          (max_weight opt - (cw + of_int k * weight g)) (max_volume opt - (cv + of_int k * volume g)))"
      by (rule Cons.IH[OF rest dist' disj2])
    then show ?thesis
      unfolding it step sf using True k by (simp add: l diff_diff_eq)
  qed
qed

lemma assigned_articles_set:
  "set (List.map_filter (\<lambda>c. case find_child rows c of Inl _ \<Rightarrow> None | Inr ch \<Rightarrow> Some (assigned_article ch)) us)
     = {a. \<exists>c \<in> set us. assigned_to rows a c}"
  by (induction us) (auto simp: List.map_filter_simps assigned_to_def split: sum.splits)

lemma sorted_spec_demand: "sorted (spec_demand rows us) \<and> distinct (spec_demand rows us)"
proof -
  let ?xs = "sort (remdups (List.map_filter
          (\<lambda>c. case find_child rows c of Inl _ \<Rightarrow> None | Inr ch \<Rightarrow> Some (assigned_article ch)) us))"
  have "sorted ?xs" by simp
  then have "sorted_wrt (\<lambda>x y. (x, demand rows us x) \<le> (y, demand rows us y)) ?xs"
    by (rule sorted_wrt_mono_rel[rotated]) (auto simp: less_eq_prod_def order.order_iff_strict)
  then have "sorted (map (\<lambda>a. (a, demand rows us a)) ?xs)" by (simp add: sorted_map)
  moreover have "distinct (map (\<lambda>a. (a, demand rows us a)) ?xs)"
    by (simp add: distinct_map inj_on_def)
  ultimately show ?thesis by (simp add: spec_demand_def)
qed

lemma tally_sorted_is_spec_demand:
  assumes "tally rows us [] = Inr needed"
  shows "sort needed = spec_demand rows us"
proof (rule sorted_distinct_set_unique)
  show "sorted (sort needed)" by simp
  show "distinct (sort needed)" using tally_entries(1)[OF assms] by (simp add: distinct_map)
  show "sorted (spec_demand rows us)" "distinct (spec_demand rows us)"
    using sorted_spec_demand by simp_all
  have "set needed = (\<lambda>a. (a, demand rows us a)) ` {a. \<exists>c \<in> set us. assigned_to rows a c}"
  proof (intro set_eqI iffI)
    fix p assume p: "p \<in> set needed"
    obtain a n where an: "p = (a, n)" by (cases p)
    from tally_entries(2)[OF assms, of a n] p an have n: "n = demand rows us a" "0 < n" by simp_all
    then have "\<exists>c \<in> set us. assigned_to rows a c" by (simp add: demand_pos_iff)
    with an n show "p \<in> (\<lambda>a. (a, demand rows us a)) ` {a. \<exists>c \<in> set us. assigned_to rows a c}"
      by auto
  next
    fix p assume "p \<in> (\<lambda>a. (a, demand rows us a)) ` {a. \<exists>c \<in> set us. assigned_to rows a c}"
    then obtain a where "p = (a, demand rows us a)" "\<exists>c \<in> set us. assigned_to rows a c" by auto
    with tally_entries(3)[OF assms, of a] show "p \<in> set needed" by simp
  qed
  then show "set (sort needed) = set (spec_demand rows us)"
    by (simp add: spec_demand_def assigned_articles_set)
qed

section \<open>The loader is the greedy fill\<close>

lemma loadable_gift:
  assumes "loadable opt rows c" "assigned_to rows a c"
  shows "\<exists>g. find_gift (gifts_df opt) a = Inr g \<and> weight g \<noteq> 0 \<and> volume g \<noteq> 0"
proof -
  from assms(2) obtain ch where ch: "find_child rows c = Inr ch" "assigned_article ch = a"
    by (auto simp: assigned_to_def split: sum.splits)
  with assms(1) show ?thesis
    by (cases "find_gift (gifts_df opt) a") (simp_all add: loadable_def)
qed

lemma loadable_known: "loadable opt rows c \<Longrightarrow> known rows c"
  by (auto simp: loadable_def known_def split: sum.splits)

lemma calculate_loading_spec:
  assumes "list_all (loadable opt rows) us"
  shows "calculate_loading opt rows us = Inr (spec_loading opt rows us)"
proof -
  from assms have kn: "\<forall>c \<in> set us. known rows c" by (auto simp: list_all_iff loadable_known)
  from tally_total[OF kn] obtain needed where t: "tally rows us [] = Inr needed" by blast
  have s: "sort needed = spec_demand rows us" by (rule tally_sorted_is_spec_demand[OF t])
  have d: "distinct (map fst (sort needed))"
    using tally_entries(1)[OF t] by (rule distinct_keys_sort)
  have r: "\<forall>(a, n) \<in> set (sort needed). \<exists>g. find_gift (gifts_df opt) a = Inr g \<and> weight g \<noteq> 0 \<and> volume g \<noteq> 0"
  proof (clarify)
    fix a n assume "(a, n) \<in> set (sort needed)"
    then have "a \<in> fst ` set needed" by (force simp: image_iff)
    with tally_result[OF t] obtain c where c: "c \<in> set us" "assigned_to rows a c" by auto
    from assms c(1) have "loadable opt rows c" by (simp add: list_all_iff)
    from loadable_gift[OF this c(2)]
    show "\<exists>g. find_gift (gifts_df opt) a = Inr g \<and> weight g \<noteq> 0 \<and> volume g \<noteq> 0" .
  qed
  have "load_items opt (sort needed) [] 0 0 =
     Inr ([] @ spec_fill (gifts_df opt) (sort needed) (max_weight opt - 0) (max_volume opt - 0))"
    by (rule load_items_spec_fill[OF r d]) simp
  then show ?thesis by (simp add: calculate_loading_def t s spec_loading_def)
qed





section \<open>Termination of the planning loop\<close>

lemma resolved_positive_loadable: "resolved_positive opt rows c \<Longrightarrow> loadable opt rows c"
  by (erule resolved_positiveE) (simp add: loadable_def)

lemma reload_total:
  assumes du: "distinct (unvisited s)"
    and pos: "\<forall>c \<in> set (unvisited s). resolved_positive opt rows c"
    and sp: "speed_kmh opt \<noteq> 0"
  shows "\<exists>t. reload geodesic opt rows s = Inr t"
proof -
  let ?u = "filter (\<lambda>c. \<not> oversized opt rows c) (unvisited s)"
  have kn: "\<forall>c \<in> set (unvisited s). known rows c"
    using pos by (auto dest!: resolved_positive_loadable loadable_known)
  have c: "classify opt rows (unvisited s) = Inr (filter (oversized opt rows) (unvisited s))"
    by (rule classify_total[OF kn])
  have r: "remove_each (filter (oversized opt rows) (unvisited s)) (unvisited s) = Inr ?u"
    by (rule remove_oversized[OF du])
  have f: "float_div (geodesic (current_position s) NORTH_POLE) (speed_kmh opt) =
      Inr (geodesic (current_position s) NORTH_POLE / speed_kmh opt)"
    using sp by (simp add: float_div_def)
  have "list_all (loadable opt rows) ?u"
    using pos by (auto simp: list_all_iff dest: resolved_positive_loadable)
  from calculate_loading_spec[OF this]
  have l: "calculate_loading opt rows ?u = Inr (spec_loading opt rows ?u)" .
  show ?thesis
    unfolding reload_def by (cases "?u = []") (simp_all add: c r f l Let_def)
qed

lemma deliver_total:
  assumes c: "c \<in> set (unvisited s)" "deliverable rows (current_cargo s) c"
    and sp: "speed_kmh opt \<noteq> 0"
  shows "\<exists>t. deliver geodesic opt rows s c = Inr t"
proof -
  from c(2) obtain ch where ch: "find_child rows c = Inr ch"
    and cd: "can_deliver (current_cargo s) (assigned_article ch)"
    by (auto simp: deliverable_def split: sum.splits)
  from cd obtain n where n: "map_of (current_cargo s) (assigned_article ch) = Some n"
    by (auto simp: can_deliver_def split: option.splits)
  have r: "set_remove c (unvisited s) = Inr (remove1 c (unvisited s))"
    using c(1) by (simp add: set_remove_def)
  have k: "\<exists>cargo'. cargo_take (current_cargo s) (assigned_article ch) = Inr cargo'"
    using n by (simp add: cargo_take_def)
  then obtain cargo' where k': "cargo_take (current_cargo s) (assigned_article ch) = Inr cargo'" ..
  have f: "float_div (geodesic (current_position s) (latitude ch, longitude ch)) (speed_kmh opt) =
      Inr (geodesic (current_position s) (latitude ch, longitude ch) / speed_kmh opt)"
    using sp by (simp add: float_div_def)
  show ?thesis unfolding deliver_def by (simp add: ch r k' f)
qed

lemma loop_body_total:
  assumes bk: "bookkeeping opt rows us s"
    and pos: "\<forall>c \<in> set us. resolved_positive opt rows c"
    and sp: "speed_kmh opt \<noteq> 0"
  shows "\<exists>t. loop_body geodesic opt rows s = Inr t"
proof -
  from bk have du: "distinct (unvisited s)" and sub: "set (unvisited s) \<subseteq> set us"
    by (auto simp: bookkeeping_def)
  from pos sub have pu: "\<forall>c \<in> set (unvisited s). resolved_positive opt rows c" by blast
  then have kn: "\<forall>c \<in> set (unvisited s). known rows c"
    by (auto dest!: resolved_positive_loadable loadable_known)
  from scan_total[OF kn] obtain bc bd where
    sc: "scan geodesic rows (current_position s) (current_cargo s) (unvisited s) None None = Inr (bc, bd)"
    by (metis surj_pair)
  show ?thesis
  proof (cases bc)
    case None
    with sc reload_total[OF du pu sp, of geodesic] show ?thesis by (simp add: loop_body_def)
  next
    case (Some c)
    from scan_Some_deliverable[OF sc[unfolded Some]]
    have "c \<in> set (unvisited s)" "deliverable rows (current_cargo s) c" by simp_all
    from deliver_total[OF this sp, of geodesic] sc Some show ?thesis by (simp add: loop_body_def)
  qed
qed

lemma loop_body_decreases:
  assumes bk: "bookkeeping opt rows us s"
    and pos: "\<forall>c \<in> set us. resolved_positive opt rows c"
    and ne: "unvisited s \<noteq> []"
    and body: "loop_body geodesic opt rows s = Inr t"
  shows "remaining_work rows t < remaining_work rows s"
  using body
proof (cases rule: loop_bodyE)
  case (reload bd)
  from scan_None_undeliverable[OF reload(1)] have np: "\<not> pending rows s"
    by (simp add: pending_def list_ex_iff)
  from ne have len: "0 < length (unvisited s)" by simp
  from bk have du: "distinct (unvisited s)" and sub: "set (unvisited s) \<subseteq> set us"
    by (auto simp: bookkeeping_def)
  from reload(2) show ?thesis
  proof (cases rule: reloadE)
    case (emptied und)
    then show ?thesis using np len by (simp add: remaining_work_def)
  next
    case (loaded und u dt m)
    from classify_result[OF loaded(1)] have und: "und = filter (oversized opt rows) (unvisited s)"
      by simp
    from loaded(2) have u: "u = filter (\<lambda>c. \<not> oversized opt rows c) (unvisited s)"
      unfolding und remove_oversized[OF du] by simp
    have "\<forall>c \<in> set u. resolved_positive opt rows c" "\<forall>c \<in> set u. \<not> oversized opt rows c"
      using pos sub by (auto simp: u)
    from calculate_loading_serves[OF loaded(5,3) this]
    have p: "pending rows t" by (auto simp: pending_def list_ex_iff loaded(6,9))
    have "length u \<le> length (unvisited s)" by (simp add: u)
    with p np show ?thesis by (simp add: remaining_work_def loaded(6))
  qed
next
  case (deliver c bd)
  from deliver(2) obtain u where r: "set_remove c (unvisited s) = Inr u" and f: "unvisited t = u"
    by (rule deliverE)
  from set_remove_result[OF r] have "c \<in> set (unvisited s)" "u = remove1 c (unvisited s)"
    by simp_all
  then have "Suc (length u) = length (unvisited s)"
    by (simp add: length_remove1) (metis Suc_pred length_pos_if_in_set)
  then show ?thesis by (simp add: remaining_work_def f)
qed

lemma while_unvisited_total:
  assumes pos: "\<forall>c \<in> set us. resolved_positive opt rows c" and sp: "speed_kmh opt \<noteq> 0"
    and bk: "bookkeeping opt rows us s"
  shows "\<exists>t. while_unvisited geodesic opt rows s = Some (Inr t)"
  using bk
proof (induction "remaining_work rows s" arbitrary: s rule: less_induct)
  case less
  show ?case
  proof (cases "unvisited s = []")
    case True
    then show ?thesis by (simp add: while_unvisited.simps)
  next
    case False
    from loop_body_total[OF less.prems pos sp] obtain s' where
      b: "loop_body geodesic opt rows s = Inr s'" by blast
    from less.hyps[OF loop_body_decreases[OF less.prems pos False b] bookkeeping_step[OF less.prems b]]
    obtain t where "while_unvisited geodesic opt rows s' = Some (Inr t)" by blast
    then have "while_unvisited geodesic opt rows s = Some (Inr t)"
      using False b by (subst while_unvisited.simps) simp
    then show ?thesis by blast
  qed
qed

text \<open>With a duplicate-free enumeration, recipients whose gifts the catalog resolves with a
  positive weight and a positive volume, and a speed other than zero, \<^verbatim>\<open>optimize_route\<close>
  returns a plan, and every recipient has a delivery event in its route or a warning.\<close>

theorem optimize_route_terminates:
  assumes "distinct us" "list_all (footprint_positive opt) us" "speed_kmh opt \<noteq> 0"
  shows "\<exists>p. optimize_route geodesic opt us = Some (Inr p) \<and>
             (\<forall>c \<in> set us. c \<in> set (deliveries (plan_route p)) \<or> c \<in> set (plan_warnings p))"
proof -
  note pos = positive_footprints_resolved[OF assms(2)]
  from while_unvisited_total[OF pos assms(3) bookkeeping_initial[OF assms(1)]]
  obtain s where w: "while_unvisited geodesic opt (assign_gifts opt) (initial_state us) = Some (Inr s)"
    by blast
  have "finish geodesic opt s =
     Inr \<lparr>plan_route = route s @ [Refuel []],
          plan_total_time = total_time s + geodesic (current_position s) NORTH_POLE / speed_kmh opt,
          plan_warnings = warnings s,
          plan_advisory =
            (if total_time s + geodesic (current_position s) NORTH_POLE / speed_kmh opt > max_time_hours opt
             then Some ((total_time s + geodesic (current_position s) NORTH_POLE / speed_kmh opt)
                        / max_time_hours opt * speed_kmh opt)
             else None)\<rparr>"
    (is "_ = Inr ?p")
    using assms(3) by (simp add: finish_def float_div_def Let_def)
  with w have o: "optimize_route geodesic opt us = Some (Inr ?p)" by (simp add: optimize_route_def)
  from while_unvisited_iterations[OF w] obtain n where
    r: "run_iterations geodesic opt (assign_gifts opt) n (initial_state us) = Inr s"
    and e: "unvisited s = []" by auto
  from bookkeeping_iterations[OF assms(1) r]
  have "set (unvisited s @ deliveries (route s) @ warnings s) = set us"
    by (simp only: bookkeeping_def)
  with e have "\<forall>c \<in> set us. c \<in> set (deliveries (plan_route ?p)) \<or> c \<in> set (plan_warnings ?p)"
    by (auto simp: deliveries_append)
  with o show ?thesis by blast
qed

end
